theory Spec2Isabelle
  imports Complex_Main "HOL-Library.Log_Nat"
begin

section \<open>Sliding window embedding: the model of \<open>getSlidingWindow\<close>\<close>

text \<open>
  The function modelled is \<open>getSlidingWindow(x, dim, Tau, dT)\<close>, defined identically in
  \<open>1-SlidingWindowBasics.ipynb\<close> and \<open>2-PersistentHomology.ipynb\<close>:
  \<^verbatim>\<open>
  def getSlidingWindow(x, dim, Tau, dT):
      N = len(x)
      NWindows = int(np.floor((N-dim*Tau)/dT)) #The number of windows
      if NWindows <= 0:
          print("Error: Tau too large for signal extent")
          return np.zeros((3, dim))
      X = np.zeros((NWindows, dim)) #Create a 2D array which will store all windows
      idx = np.arange(N)
      for i in range(NWindows):
          idxx = dT*i + Tau*np.arange(dim)
          start = int(np.floor(idxx[0]))
          end = int(np.ceil(idxx[-1]))+2
          if end >= len(x):
              X = X[0:i, :]
              break
          X[i, :] = interp.spline(idx[start:end+1], x[start:end+1], idxx)
      return X
  \<close>
  Numbers are modelled as the program has them. \<open>dim\<close> is a Python integer, \<open>Tau\<close> and
  \<open>dT\<close> are Python floats, that is IEEE 754 binary64 numbers, and every operation of the
  function on floats is the IEEE operation: the exact result rounded to the nearest double,
  ties to even, with overflow to an infinity and with NaN. The samples of the signal are
  finite doubles, written as the real numbers they denote; the function does no arithmetic
  on them, it passes them to the library.

  \<open>interp.spline\<close> is a routine of the SciPy library and \<open>np.zeros\<close> one of NumPy, neither
  of this repository. The first is a parameter of the model, a function that returns the
  values of its interpolant or raises; of the second, the shapes it cannot build are a
  parameter; exhaustion of memory is modelled there only. The lines that NumPy may write
  to the error stream when array arithmetic overflows are not modelled: \<open>printed\<close> records
  the calls of \<open>print\<close>.
\<close>

subsection \<open>IEEE 754 binary64\<close>

text \<open>A double is a finite number, an infinity or NaN. A finite double is written as the
  real number it denotes, so the two zeros are one value: the function divides by \<open>dT\<close>
  only, where Python raises for either zero, and nothing else it does depends on the sign
  of a zero.\<close>

datatype double = Finite real | PosInf | NegInf | NaN

text \<open>Rounding of a real to the nearest integer, ties to the even one.\<close>

definition rne :: "real \<Rightarrow> int" where
  "rne a = (let f = \<lfloor>a\<rfloor>; r = a - of_int f
            in if r < 1/2 then f else if 1/2 < r then f + 1 else if even f then f else f + 1)"

text \<open>The binary exponent of a positive real: \<open>2 powi (ilog2 x) \<le> x < 2 powi (ilog2 x + 1)\<close>.\<close>

definition ilog2 :: "real \<Rightarrow> int" where
  "ilog2 x = (if 1 \<le> x then bitlen \<lfloor>x\<rfloor> - 1 else - bitlen (\<lceil>1 / x\<rceil> - 1))"

text \<open>The exponent of a number as a double, where the subnormal numbers share the exponent
  \<open>-1022\<close>, and the exponent of the last of its 53 bits.\<close>

definition bexp :: "real \<Rightarrow> int" where
  "bexp x = max (ilog2 \<bar>x\<bar>) (- 1022)"

definition ulp_exp :: "real \<Rightarrow> int" where
  "ulp_exp x = max (ilog2 \<bar>x\<bar>) (- 1022) - 52"

text \<open>Rounding to 53 bits with the exponent unbounded above, and rounding to a double: a
  rounded value of \<open>2 ^ 1024\<close> or more overflows.\<close>

definition round_real :: "real \<Rightarrow> real" where
  "round_real x = (if x = 0 then 0 else of_int (rne (x / 2 powi ulp_exp x)) * 2 powi ulp_exp x)"

definition huge :: real where
  "huge = 2 ^ 1024"

definition round_double :: "real \<Rightarrow> double" where
  "round_double x =
     (let r = round_real x
      in if huge \<le> r then PosInf else if r \<le> - huge then NegInf else Finite r)"

text \<open>Negation, \<open>+\<close>, \<open>-\<close>, \<open>*\<close> and \<open>/\<close> on doubles. Division is called with a divisor other
  than zero only (see \<open>py_truediv\<close>).\<close>

fun dneg :: "double \<Rightarrow> double" where
  "dneg (Finite a) = Finite (- a)"
| "dneg PosInf = NegInf"
| "dneg NegInf = PosInf"
| "dneg NaN = NaN"

fun dadd :: "double \<Rightarrow> double \<Rightarrow> double" where
  "dadd (Finite a) (Finite b) = round_double (a + b)"
| "dadd NaN v = NaN"
| "dadd u NaN = NaN"
| "dadd PosInf NegInf = NaN"
| "dadd NegInf PosInf = NaN"
| "dadd PosInf v = PosInf"
| "dadd NegInf v = NegInf"
| "dadd u PosInf = PosInf"
| "dadd u NegInf = NegInf"

definition dsub :: "double \<Rightarrow> double \<Rightarrow> double" where
  "dsub u v = dadd u (dneg v)"

fun dmul :: "double \<Rightarrow> double \<Rightarrow> double" where
  "dmul (Finite a) (Finite b) = round_double (a * b)"
| "dmul NaN v = NaN"
| "dmul u NaN = NaN"
| "dmul (Finite a) PosInf = (if a = 0 then NaN else if 0 < a then PosInf else NegInf)"
| "dmul (Finite a) NegInf = (if a = 0 then NaN else if 0 < a then NegInf else PosInf)"
| "dmul PosInf (Finite b) = (if b = 0 then NaN else if 0 < b then PosInf else NegInf)"
| "dmul NegInf (Finite b) = (if b = 0 then NaN else if 0 < b then NegInf else PosInf)"
| "dmul PosInf PosInf = PosInf"
| "dmul PosInf NegInf = NegInf"
| "dmul NegInf PosInf = NegInf"
| "dmul NegInf NegInf = PosInf"

fun ddiv :: "double \<Rightarrow> double \<Rightarrow> double" where
  "ddiv (Finite a) (Finite b) = round_double (a / b)"
| "ddiv NaN v = NaN"
| "ddiv u NaN = NaN"
| "ddiv (Finite a) PosInf = Finite 0"
| "ddiv (Finite a) NegInf = Finite 0"
| "ddiv PosInf (Finite b) = (if 0 < b then PosInf else NegInf)"
| "ddiv NegInf (Finite b) = (if 0 < b then NegInf else PosInf)"
| "ddiv PosInf v = NaN"
| "ddiv NegInf v = NaN"

subsection \<open>Outcomes of a call\<close>

text \<open>The exceptions a call can end with. The function raises none itself; Python and the
  libraries do: \<open>ZeroDivisionError\<close> at \<open>/ dT\<close>, \<open>OverflowError\<close> at the conversion of an
  integer too large for a float and at \<open>int\<close> of an infinity, \<open>ValueError\<close> at \<open>int\<close> of NaN, at
  \<open>np.zeros\<close> of a negative dimension and at a row assignment of the wrong length,
  \<open>IndexError\<close> at \<open>idxx[0]\<close> of an empty array, and whatever the libraries raise.\<close>

datatype py_error =
  ZeroDivisionError | OverflowError | ValueError | IndexError | MemoryError | OtherError string

type_synonym matrix = "real list list"

text \<open>A call ends with what it has printed and either an exception or the returned array.\<close>

record outcome =
  printed :: "string list"
  result :: "py_error + matrix"

text \<open>\<open>interp.spline(xk, yk, xnew)\<close>: knots, values at the knots and the positions to evaluate
  at; it returns the values there or raises.\<close>

type_synonym library = "int list \<Rightarrow> real list \<Rightarrow> double list \<Rightarrow> py_error + real list"

text \<open>What \<open>np.zeros\<close> refuses: the exception for a shape with an entry outside the 64-bit
  index type (\<open>OverflowError\<close> or \<open>ValueError\<close>, by version), and the exception, if any,
  for a shape \<open>(r, c)\<close> of non-negative entries that is too large to allocate.\<close>

record numpy =
  shape_error :: py_error
  alloc_error :: "nat \<Rightarrow> nat \<Rightarrow> py_error option"

text \<open>Sequencing of steps that may raise.\<close>

definition and_then :: "py_error + 'a \<Rightarrow> ('a \<Rightarrow> py_error + 'b) \<Rightarrow> py_error + 'b" where
  "and_then r f = (case r of Inl e \<Rightarrow> Inl e | Inr v \<Rightarrow> f v)"

subsection \<open>Python and NumPy operations\<close>

text \<open>The conversion of a Python integer to a float, as in \<open>dim*Tau\<close>, \<open>N-...\<close> and \<open>dT*i\<close>:
  correctly rounded, \<open>OverflowError\<close> when the integer is too large.\<close>

definition py_float :: "int \<Rightarrow> py_error + double" where
  "py_float n = (case round_double (of_int n) of Finite r \<Rightarrow> Inr (Finite r) | _ \<Rightarrow> Inl OverflowError)"

text \<open>\<open>u / v\<close> on Python floats.\<close>

definition py_truediv :: "double \<Rightarrow> double \<Rightarrow> py_error + double" where
  "py_truediv u v = (if v = Finite 0 then Inl ZeroDivisionError else Inr (ddiv u v))"

text \<open>\<open>int(np.floor(v))\<close> and \<open>int(np.ceil(v))\<close>.\<close>

fun int_floor :: "double \<Rightarrow> py_error + int" where
  "int_floor (Finite a) = Inr \<lfloor>a\<rfloor>"
| "int_floor NaN = Inl ValueError"
| "int_floor PosInf = Inl OverflowError"
| "int_floor NegInf = Inl OverflowError"

fun int_ceil :: "double \<Rightarrow> py_error + int" where
  "int_ceil (Finite a) = Inr \<lceil>a\<rceil>"
| "int_ceil NaN = Inl ValueError"
| "int_ceil PosInf = Inl OverflowError"
| "int_ceil NegInf = Inl OverflowError"

text \<open>\<open>np.zeros((r, c))\<close>.\<close>

definition zeros :: "nat \<Rightarrow> nat \<Rightarrow> matrix" where
  "zeros r c = replicate r (replicate c 0)"

definition index_range :: "int \<Rightarrow> bool" where
  "index_range k \<longleftrightarrow> - (2 ^ 63) \<le> k \<and> k < 2 ^ 63"

definition np_zeros :: "numpy \<Rightarrow> int \<Rightarrow> int \<Rightarrow> py_error + matrix" where
  "np_zeros np r c =
     (if index_range r \<and> index_range c then
        (if r < 0 \<or> c < 0 then Inl ValueError
         else case alloc_error np (nat r) (nat c) of
                Some e \<Rightarrow> Inl e
              | None \<Rightarrow> Inr (zeros (nat r) (nat c)))
      else Inl (shape_error np))"

text \<open>A slice bound of Python: a negative bound counts from the end, and every bound is
  clipped to the array.\<close>

definition slice_bound :: "nat \<Rightarrow> int \<Rightarrow> nat" where
  "slice_bound n k = (if k < 0 then nat (max 0 (k + int n)) else min n (nat k))"

text \<open>\<open>a[s:e]\<close>.\<close>

definition py_slice :: "'a list \<Rightarrow> int \<Rightarrow> int \<Rightarrow> 'a list" where
  "py_slice a s e =
     (let lo = slice_bound (length a) s; hi = slice_bound (length a) e
      in take (hi - lo) (drop lo a))"

text \<open>\<open>np.arange(N)\<close>.\<close>

definition arange :: "nat \<Rightarrow> int list" where
  "arange n = map int [0..<n]"

text \<open>The assignment \<open>X[i, :] = v\<close> to a row of \<open>c\<close> entries: \<open>v\<close> has \<open>c\<close> entries, or one
  entry that is repeated, or the assignment raises.\<close>

definition broadcast :: "nat \<Rightarrow> real list \<Rightarrow> py_error + real list" where
  "broadcast c v =
     (if length v = c then Inr v
      else if length v = 1 then Inr (replicate c (hd v))
      else Inl ValueError)"

subsection \<open>The function\<close>

text \<open>\<open>NWindows = int(np.floor((N-dim*Tau)/dT))\<close>.\<close>

definition NWindows :: "real list \<Rightarrow> int \<Rightarrow> double \<Rightarrow> double \<Rightarrow> py_error + int" where
  "NWindows x dim' Tau dT =
     and_then (py_float dim') (\<lambda>d.
     and_then (py_float (int (length x))) (\<lambda>n.
     and_then (py_truediv (dsub n (dmul d Tau)) dT) int_floor))"

text \<open>\<open>idxx = dT*i + Tau*np.arange(dim)\<close>: the sample positions of window \<open>i\<close>. \<open>dT*i\<close> is a
  product of Python floats; the entries of \<open>np.arange(dim)\<close> are converted to doubles and the
  product and the sum are taken entry by entry.\<close>

definition idxx :: "int \<Rightarrow> double \<Rightarrow> double \<Rightarrow> nat \<Rightarrow> py_error + double list" where
  "idxx dim' Tau dT i =
     and_then (py_float (int i)) (\<lambda>fi.
       Inr (map (\<lambda>j. dadd (dmul dT fi) (dmul Tau (round_double (real j)))) [0..<nat dim']))"

text \<open>\<open>start = int(np.floor(idxx[0]))\<close> and \<open>end = int(np.ceil(idxx[-1]))+2\<close>.\<close>

definition start :: "double list \<Rightarrow> py_error + int" where
  "start p = (if p = [] then Inl IndexError else int_floor (hd p))"

definition endp :: "double list \<Rightarrow> py_error + int" where
  "endp p = (if p = [] then Inl IndexError else and_then (int_ceil (last p)) (\<lambda>c. Inr (c + 2)))"

text \<open>The body of the loop for window \<open>i\<close>: an exception, \<open>None\<close> for \<open>break\<close>, or the row that
  is assigned to \<open>X[i, :]\<close>.\<close>

definition window :: "library \<Rightarrow> real list \<Rightarrow> int \<Rightarrow> double \<Rightarrow> double \<Rightarrow> nat
    \<Rightarrow> py_error + real list option" where
  "window spline x dim' Tau dT i =
     and_then (idxx dim' Tau dT i) (\<lambda>p.
     and_then (start p) (\<lambda>s.
     and_then (endp p) (\<lambda>e.
       if e \<ge> int (length x) then Inr None
       else and_then (spline (py_slice (arange (length x)) s (e + 1)) (py_slice x s (e + 1)) p) (\<lambda>v.
            and_then (broadcast (nat dim') v) (\<lambda>r. Inr (Some r))))))"

text \<open>\<open>for i in range(NWindows)\<close>, over the indices still to visit, with the array \<open>X\<close> as
  state. At \<open>break\<close> the array is cut to \<open>X[0:i, :]\<close>.\<close>

fun window_loop :: "library \<Rightarrow> real list \<Rightarrow> int \<Rightarrow> double \<Rightarrow> double \<Rightarrow> nat list \<Rightarrow> matrix
    \<Rightarrow> py_error + matrix" where
  "window_loop spline x dim' Tau dT [] X = Inr X"
| "window_loop spline x dim' Tau dT (i # rest) X =
     (case window spline x dim' Tau dT i of
        Inl e \<Rightarrow> Inl e
      | Inr None \<Rightarrow> Inr (take i X)
      | Inr (Some r) \<Rightarrow> window_loop spline x dim' Tau dT rest (X[i := r]))"

text \<open>The whole function. An exception of the first statement ends the call before
  anything is printed.\<close>

definition getSlidingWindow :: "library \<Rightarrow> numpy \<Rightarrow> real list \<Rightarrow> int \<Rightarrow> double \<Rightarrow> double
    \<Rightarrow> outcome" where
  "getSlidingWindow spline np x dim' Tau dT =
     (case NWindows x dim' Tau dT of
        Inl e \<Rightarrow> \<lparr>printed = [], result = Inl e\<rparr>
      | Inr M \<Rightarrow>
          if M \<le> 0 then
            \<lparr>printed = [''Error: Tau too large for signal extent''], result = np_zeros np 3 dim'\<rparr>
          else
            \<lparr>printed = [],
             result = and_then (np_zeros np M dim')
                        (window_loop spline x dim' Tau dT [0..<nat M])\<rparr>)"

subsection \<open>Notions used to state the properties\<close>

text \<open>Window \<open>i\<close> passes the test of the loop body: its bounds are computed and
  \<open>end >= len(x)\<close> is false.\<close>

definition fits :: "real list \<Rightarrow> int \<Rightarrow> double \<Rightarrow> double \<Rightarrow> nat \<Rightarrow> bool" where
  "fits x dim' Tau dT i =
     (case idxx dim' Tau dT i of
        Inl e \<Rightarrow> False
      | Inr p \<Rightarrow>
          (case start p of
             Inl e \<Rightarrow> False
           | Inr s \<Rightarrow> (case endp p of Inl e \<Rightarrow> False | Inr e \<Rightarrow> e < int (length x))))"

text \<open>The order of the doubles; NaN is comparable with nothing.\<close>

fun dle :: "double \<Rightarrow> double \<Rightarrow> bool" where
  "dle (Finite a) (Finite b) = (a \<le> b)"
| "dle NaN v = False"
| "dle u NaN = False"
| "dle NegInf v = True"
| "dle u PosInf = True"
| "dle u v = False"

text \<open>Position \<open>j\<close> of a window, for finite \<open>dT = d\<close> and \<open>Tau = t\<close> and the float \<open>fi\<close> of the
  window index.\<close>

definition pos :: "real \<Rightarrow> real \<Rightarrow> double \<Rightarrow> nat \<Rightarrow> double" where
  "pos d t fi j = dadd (dmul (Finite d) fi) (dmul (Finite t) (round_double (real j)))"

text \<open>A position lies strictly inside the interval \<open>[0, N-1]\<close>, in the words of the
  specification.\<close>

definition strictly_within :: "nat \<Rightarrow> double \<Rightarrow> bool" where
  "strictly_within N p = (case p of Finite v \<Rightarrow> 0 < v \<and> v < real N - 1 | _ \<Rightarrow> False)"

subsection \<open>A library to run the model on\<close>

text \<open>Piecewise linear interpolation through the knots, a stand-in for the library routine
  in the examples, and a NumPy that builds every array.\<close>

fun linear_interp :: "int list \<Rightarrow> real list \<Rightarrow> real \<Rightarrow> real" where
  "linear_interp (a # b # ks) (u # v # ys) q =
     (if q \<le> real_of_int b
      then u + (v - u) * (q - real_of_int a) / (real_of_int b - real_of_int a)
      else linear_interp (b # ks) (v # ys) q)"
| "linear_interp [a] [u] q = u"
| "linear_interp _ _ q = 0"

definition linear_spline :: library where
  "linear_spline xk yk p =
     (if length xk < 2 \<or> length yk \<noteq> length xk then Inl ValueError
      else Inr (map (\<lambda>v. case v of Finite q \<Rightarrow> linear_interp xk yk q | _ \<Rightarrow> 0) p))"

definition unlimited :: numpy where
  "unlimited = \<lparr>shape_error = OverflowError, alloc_error = (\<lambda>r c. None)\<rparr>"

section \<open>Rounding to a double\<close>

lemma rne_of_int [simp]: "rne (of_int k) = k"
  by (simp add: rne_def)

lemma rne_mono: "a \<le> b \<Longrightarrow> rne a \<le> rne b"
proof -
  assume ab: "a \<le> b"
  have fa: "of_int \<lfloor>a\<rfloor> \<le> a" "a < of_int \<lfloor>a\<rfloor> + 1" by linarith+
  have fb: "of_int \<lfloor>b\<rfloor> \<le> b" "b < of_int \<lfloor>b\<rfloor> + 1" by linarith+
  have ra: "\<lfloor>a\<rfloor> \<le> rne a" "rne a \<le> \<lfloor>a\<rfloor> + 1" by (simp_all add: rne_def Let_def)
  have rb: "\<lfloor>b\<rfloor> \<le> rne b" "rne b \<le> \<lfloor>b\<rfloor> + 1" by (simp_all add: rne_def Let_def)
  have "\<lfloor>a\<rfloor> \<le> \<lfloor>b\<rfloor>" using ab by (rule floor_mono)
  then consider "\<lfloor>a\<rfloor> < \<lfloor>b\<rfloor>" | "\<lfloor>a\<rfloor> = \<lfloor>b\<rfloor>" by linarith
  then show ?thesis
  proof cases
    case 1
    then show ?thesis using ra rb by linarith
  next
    case 2
    then show ?thesis using ab by (auto simp: rne_def Let_def)
  qed
qed

lemma rne_ge: "of_int k \<le> a \<Longrightarrow> k \<le> rne a"
  using rne_mono[of "of_int k" a] by simp

lemma rne_le: "a \<le> of_int k \<Longrightarrow> rne a \<le> k"
  using rne_mono[of a "of_int k"] by simp

lemma ilog2_bounds:
  assumes "0 < x"
  shows "2 powi ilog2 x \<le> x" and "x < 2 powi (ilog2 x + 1)"
proof -
  have "2 powi ilog2 x \<le> x \<and> x < 2 powi (ilog2 x + 1)"
  proof (cases "1 \<le> x")
    case True
    let ?n = "\<lfloor>x\<rfloor>"
    have n: "0 < ?n" using True by simp
    have k: "0 < bitlen ?n" using n bitlen_nonneg[of ?n] bitlen_eq_zero_iff[of ?n] by linarith
    have b: "2 ^ nat (bitlen ?n - 1) \<le> ?n" "?n < 2 ^ nat (bitlen ?n)"
      using bitlen_bounds[OF n] by simp_all
    from b(1) have "of_int (2 ^ nat (bitlen ?n - 1)) \<le> x" by (simp only: le_floor_iff)
    then have lo: "2 ^ nat (bitlen ?n - 1) \<le> x" by simp
    from b(2) have "x < of_int (2 ^ nat (bitlen ?n))" by (simp only: floor_less_iff)
    then have hi: "x < 2 ^ nat (bitlen ?n)" by simp
    have e: "ilog2 x = bitlen ?n - 1" using True by (simp add: ilog2_def)
    show ?thesis unfolding e using lo hi k by (simp add: power_int_def)
  next
    case False
    let ?c = "\<lceil>1 / x\<rceil>"
    have y: "1 < 1 / x" using False assms by simp
    then have c: "0 < ?c - 1" by linarith
    have k: "0 < bitlen (?c - 1)"
      using c bitlen_nonneg[of "?c - 1"] bitlen_eq_zero_iff[of "?c - 1"] by linarith
    have b: "2 ^ nat (bitlen (?c - 1) - 1) \<le> ?c - 1" "?c - 1 < 2 ^ nat (bitlen (?c - 1))"
      using bitlen_bounds[OF c] by simp_all
    from b(1) have "2 ^ nat (bitlen (?c - 1) - 1) < ?c" by linarith
    then have "of_int (2 ^ nat (bitlen (?c - 1) - 1)) < 1 / x" by (simp only: less_ceiling_iff)
    then have lo: "2 ^ nat (bitlen (?c - 1) - 1) < 1 / x" by simp
    from b(2) have "?c \<le> 2 ^ nat (bitlen (?c - 1))" by linarith
    then have "1 / x \<le> of_int (2 ^ nat (bitlen (?c - 1)))" by (simp only: ceiling_le_iff)
    then have hi: "1 / x \<le> 2 ^ nat (bitlen (?c - 1))" by simp
    have e: "ilog2 x = - bitlen (?c - 1)" using False by (simp add: ilog2_def)
    have p1: "2 powi (- bitlen (?c - 1)) = 1 / (2::real) ^ nat (bitlen (?c - 1))"
      using k by (simp add: power_int_def field_simps)
    have p2: "2 powi (- bitlen (?c - 1) + 1) = 1 / (2::real) ^ nat (bitlen (?c - 1) - 1)"
      using k by (simp add: power_int_def field_simps nat_diff_distrib)
    have "1 / (2::real) ^ nat (bitlen (?c - 1)) \<le> x"
      using hi assms by (simp add: field_simps)
    moreover have "x < 1 / (2::real) ^ nat (bitlen (?c - 1) - 1)"
      using lo assms by (simp add: field_simps)
    ultimately show ?thesis unfolding e p1 p2 by simp
  qed
  then show "2 powi ilog2 x \<le> x" and "x < 2 powi (ilog2 x + 1)" by simp_all
qed

lemma ilog2_mono:
  assumes "0 < x" "x \<le> y"
  shows "ilog2 x \<le> ilog2 y"
proof (rule ccontr)
  assume "\<not> ilog2 x \<le> ilog2 y"
  then have "ilog2 y + 1 \<le> ilog2 x" by simp
  then have "(2::real) powi (ilog2 y + 1) \<le> 2 powi ilog2 x"
    by (intro power_int_increasing) simp_all
  moreover have "2 powi ilog2 x \<le> x" using assms(1) by (rule ilog2_bounds)
  moreover have "y < 2 powi (ilog2 y + 1)" using assms by (intro ilog2_bounds) simp
  ultimately show False using assms(2) by linarith
qed

lemma ulp_exp_bexp: "ulp_exp x = bexp x - 52"
  by (simp add: ulp_exp_def bexp_def)

lemma pow_split: "(2::real) powi (e + 1) = 2 ^ 53 * 2 powi (e - 52)" "(2::real) powi e = 2 ^ 52 * 2 powi (e - 52)"
proof -
  have "(2::real) powi (53 + (e - 52)) = 2 powi 53 * 2 powi (e - 52)" by (rule power_int_add) simp
  moreover have "53 + (e - 52) = e + 1" by simp
  ultimately show "(2::real) powi (e + 1) = 2 ^ 53 * 2 powi (e - 52)" by simp
  have "(2::real) powi (52 + (e - 52)) = 2 powi 52 * 2 powi (e - 52)" by (rule power_int_add) simp
  moreover have "52 + (e - 52) = e" by simp
  ultimately show "(2::real) powi e = 2 ^ 52 * 2 powi (e - 52)" by simp
qed

lemma abs_lt_bexp: "x \<noteq> 0 \<Longrightarrow> \<bar>x\<bar> < 2 powi (bexp x + 1)"
proof -
  assume "x \<noteq> 0"
  then have "\<bar>x\<bar> < 2 powi (ilog2 \<bar>x\<bar> + 1)" by (intro ilog2_bounds) simp
  also have "\<dots> \<le> 2 powi (bexp x + 1)"
    by (intro power_int_increasing) (simp_all add: bexp_def)
  finally show ?thesis .
qed

lemma round_real_nonneg: "0 \<le> x \<Longrightarrow> 0 \<le> round_real x"
proof -
  assume x: "0 \<le> x"
  have "0 \<le> x / 2 powi ulp_exp x" using x by simp
  then have "0 \<le> rne (x / 2 powi ulp_exp x)" using rne_ge[of 0] by simp
  then show ?thesis by (simp add: round_real_def)
qed

lemma round_real_nonpos: "x \<le> 0 \<Longrightarrow> round_real x \<le> 0"
proof -
  assume x: "x \<le> 0"
  have "x / 2 powi ulp_exp x \<le> 0" using x by (simp add: divide_nonpos_pos)
  then have "rne (x / 2 powi ulp_exp x) \<le> 0" using rne_le[of _ 0] by simp
  then show ?thesis by (simp add: round_real_def mult_nonpos_nonneg)
qed

lemma round_real_abs_le:
  assumes "x \<noteq> 0"
  shows "\<bar>round_real x\<bar> \<le> 2 powi (bexp x + 1)"
proof -
  let ?u = "(2::real) powi (bexp x - 52)"
  have u: "0 < ?u" by simp
  have "\<bar>x\<bar> < 2 ^ 53 * ?u" using abs_lt_bexp[OF assms] by (simp only: pow_split(1))
  then have "\<bar>x\<bar> / ?u < 2 ^ 53" using u by (simp add: field_simps)
  then have "\<bar>x / ?u\<bar> < 2 ^ 53" using u by simp
  then have "x / ?u \<le> 2 ^ 53" "- (2 ^ 53) \<le> x / ?u" by linarith+
  then have b: "x / ?u \<le> of_int (2 ^ 53)" "of_int (- (2 ^ 53)) \<le> x / ?u" by simp_all
  have "rne (x / ?u) \<le> 2 ^ 53" using b(1) by (rule rne_le)
  moreover have "- (2 ^ 53) \<le> rne (x / ?u)" using b(2) by (rule rne_ge)
  ultimately have "\<bar>rne (x / ?u)\<bar> \<le> 2 ^ 53" by linarith
  then have "\<bar>real_of_int (rne (x / ?u))\<bar> \<le> 2 ^ 53"
    by (metis of_int_abs of_int_le_iff of_int_numeral of_int_power)
  then have "\<bar>real_of_int (rne (x / ?u))\<bar> * ?u \<le> 2 ^ 53 * ?u"
    using u by (intro mult_right_mono) simp_all
  then have "\<bar>real_of_int (rne (x / ?u)) * ?u\<bar> \<le> 2 ^ 53 * ?u"
    using u by (simp add: abs_mult)
  then show ?thesis using assms by (simp add: round_real_def ulp_exp_bexp pow_split(1))
qed

lemma round_real_ge_pow:
  assumes "0 < x" "- 1022 \<le> ilog2 x"
  shows "2 powi bexp x \<le> round_real x"
proof -
  let ?u = "(2::real) powi (bexp x - 52)"
  have u: "0 < ?u" by simp
  have e: "bexp x = ilog2 x" using assms by (simp add: bexp_def)
  have "2 powi bexp x \<le> x" unfolding e using assms(1) by (rule ilog2_bounds)
  then have "2 ^ 52 * ?u \<le> x" by (simp only: pow_split(2)[symmetric])
  then have "of_int (2 ^ 52) \<le> x / ?u" using u by (simp add: field_simps)
  then have "2 ^ 52 \<le> rne (x / ?u)" by (rule rne_ge)
  then have "real_of_int (2 ^ 52) \<le> real_of_int (rne (x / ?u))" by (simp only: of_int_le_iff)
  then have "2 ^ 52 * ?u \<le> real_of_int (rne (x / ?u)) * ?u"
    using u by (intro mult_right_mono) simp_all
  then show ?thesis using assms(1) by (simp add: round_real_def ulp_exp_bexp pow_split(2)[of "bexp x"])
qed

lemma round_real_le_neg_pow:
  assumes "x < 0" "- 1022 \<le> ilog2 \<bar>x\<bar>"
  shows "round_real x \<le> - (2 powi bexp x)"
proof -
  let ?u = "(2::real) powi (bexp x - 52)"
  have u: "0 < ?u" by simp
  have e: "bexp x = ilog2 \<bar>x\<bar>" using assms by (simp add: bexp_def)
  have "2 powi bexp x \<le> \<bar>x\<bar>" unfolding e using assms(1) by (intro ilog2_bounds) simp
  then have "2 powi bexp x \<le> - x" using assms(1) by simp
  then have "2 ^ 52 * ?u \<le> - x" by (simp only: pow_split(2)[symmetric])
  then have "x / ?u \<le> of_int (- (2 ^ 52))" using u by (simp add: field_simps)
  then have "rne (x / ?u) \<le> - (2 ^ 52)" by (rule rne_le)
  then have "real_of_int (rne (x / ?u)) \<le> real_of_int (- (2 ^ 52))" by (simp only: of_int_le_iff)
  then have "real_of_int (rne (x / ?u)) * ?u \<le> real_of_int (- (2 ^ 52)) * ?u"
    using u by (intro mult_right_mono) simp_all
  then show ?thesis using assms(1) by (simp add: round_real_def ulp_exp_bexp pow_split(2)[of "bexp x"])
qed

lemma round_real_mono:
  assumes "x \<le> y"
  shows "round_real x \<le> round_real y"
proof -
  consider "x \<le> 0" "0 \<le> y" | "0 < x" | "y < 0" using assms by linarith
  then show ?thesis
  proof cases
    case 1
    then show ?thesis using round_real_nonpos[of x] round_real_nonneg[of y] by linarith
  next
    case 2
    then have y: "0 < y" using assms by simp
    have le: "bexp x \<le> bexp y" using ilog2_mono[of "\<bar>x\<bar>" "\<bar>y\<bar>"] 2 assms by (simp add: bexp_def)
    show ?thesis
    proof (cases "bexp x = bexp y")
      case True
      have "x / 2 powi (bexp y - 52) \<le> y / 2 powi (bexp y - 52)"
        using assms by (simp add: divide_right_mono)
      then have "rne (x / 2 powi (bexp y - 52)) \<le> rne (y / 2 powi (bexp y - 52))" by (rule rne_mono)
      then have "real_of_int (rne (x / 2 powi (bexp y - 52))) * 2 powi (bexp y - 52)
          \<le> real_of_int (rne (y / 2 powi (bexp y - 52))) * 2 powi (bexp y - 52)"
        by (intro mult_right_mono) simp_all
      then show ?thesis using 2 y by (simp add: round_real_def ulp_exp_bexp True)
    next
      case False
      then have lt: "bexp x + 1 \<le> bexp y" using le by simp
      then have "- 1022 \<le> ilog2 y" using y by (simp add: bexp_def max_def split: if_splits)
      then have "2 powi bexp y \<le> round_real y" using y by (intro round_real_ge_pow)
      moreover have "round_real x \<le> 2 powi (bexp x + 1)"
        using round_real_abs_le[of x] 2 by simp
      moreover have "(2::real) powi (bexp x + 1) \<le> 2 powi bexp y"
        using lt by (intro power_int_increasing) simp_all
      ultimately show ?thesis by linarith
    qed
  next
    case 3
    then have x: "x < 0" using assms by simp
    have le: "bexp y \<le> bexp x" using ilog2_mono[of "\<bar>y\<bar>" "\<bar>x\<bar>"] 3 assms by (simp add: bexp_def)
    show ?thesis
    proof (cases "bexp x = bexp y")
      case True
      have "x / 2 powi (bexp y - 52) \<le> y / 2 powi (bexp y - 52)"
        using assms by (simp add: divide_right_mono)
      then have "rne (x / 2 powi (bexp y - 52)) \<le> rne (y / 2 powi (bexp y - 52))" by (rule rne_mono)
      then have "real_of_int (rne (x / 2 powi (bexp y - 52))) * 2 powi (bexp y - 52)
          \<le> real_of_int (rne (y / 2 powi (bexp y - 52))) * 2 powi (bexp y - 52)"
        by (intro mult_right_mono) simp_all
      then show ?thesis using 3 x by (simp add: round_real_def ulp_exp_bexp True)
    next
      case False
      then have lt: "bexp y + 1 \<le> bexp x" using le by simp
      then have "- 1022 \<le> ilog2 \<bar>x\<bar>" by (simp add: bexp_def max_def split: if_splits)
      then have "round_real x \<le> - (2 powi bexp x)" using x by (intro round_real_le_neg_pow)
      moreover have "- (2 powi (bexp y + 1)) \<le> round_real y"
        using round_real_abs_le[of y] 3 by simp
      moreover have "(2::real) powi (bexp y + 1) \<le> 2 powi bexp x"
        using lt by (intro power_int_increasing) simp_all
      ultimately show ?thesis by linarith
    qed
  qed
qed

lemma round_real_of_int:
  assumes "\<bar>n\<bar> \<le> 2 ^ 53"
  shows "round_real (of_int n) = of_int n"
proof (cases "n = 0")
  case True
  then show ?thesis by (simp add: round_real_def)
next
  case False
  let ?x = "real_of_int n"
  have x: "?x \<noteq> 0" "1 \<le> \<bar>?x\<bar>" using False by (simp_all flip: of_int_abs)
  have ax: "\<bar>?x\<bar> \<le> 2 ^ 53"
    using assms by (metis of_int_abs of_int_le_iff of_int_numeral of_int_power)
  have lo: "0 \<le> ilog2 \<bar>?x\<bar>"
  proof (rule ccontr)
    assume "\<not> 0 \<le> ilog2 \<bar>?x\<bar>"
    then have "ilog2 \<bar>?x\<bar> + 1 \<le> 0" by simp
    then have "(2::real) powi (ilog2 \<bar>?x\<bar> + 1) \<le> 2 powi 0"
      by (intro power_int_increasing) simp_all
    moreover have "\<bar>?x\<bar> < 2 powi (ilog2 \<bar>?x\<bar> + 1)" using x by (intro ilog2_bounds) simp
    ultimately show False using x(2) by simp
  qed
  have hi: "ilog2 \<bar>?x\<bar> \<le> 53"
  proof (rule ccontr)
    assume "\<not> ilog2 \<bar>?x\<bar> \<le> 53"
    then have "54 \<le> ilog2 \<bar>?x\<bar>" by simp
    then have "(2::real) powi 54 \<le> 2 powi ilog2 \<bar>?x\<bar>"
      by (intro power_int_increasing) simp_all
    moreover have "2 powi ilog2 \<bar>?x\<bar> \<le> \<bar>?x\<bar>" using x by (intro ilog2_bounds) simp
    ultimately show False using ax by simp
  qed
  have e: "bexp ?x = ilog2 \<bar>?x\<bar>" using lo by (simp add: bexp_def)
  have "\<exists>k. ?x / 2 powi (bexp ?x - 52) = real_of_int k"
  proof (cases "bexp ?x \<le> 52")
    case True
    then have "(2::real) powi (bexp ?x - 52) = 1 / 2 ^ nat (52 - bexp ?x)"
      by (simp add: power_int_def field_simps)
    then have "?x / 2 powi (bexp ?x - 52) = real_of_int (n * 2 ^ nat (52 - bexp ?x))" by simp
    then show ?thesis ..
  next
    case False
    then have b: "bexp ?x = 53" using hi e by simp
    have "2 powi ilog2 \<bar>?x\<bar> \<le> \<bar>?x\<bar>" using x by (intro ilog2_bounds) simp
    then have "\<bar>?x\<bar> = 2 ^ 53" using ax b e by simp
    then have "?x = 2 ^ 53 \<or> ?x = - (2 ^ 53)" by linarith
    then have "?x / 2 powi (bexp ?x - 52) = real_of_int (2 ^ 52) \<or>
               ?x / 2 powi (bexp ?x - 52) = real_of_int (- (2 ^ 52))"
      unfolding b by auto
    then show ?thesis by blast
  qed
  then obtain k where k: "?x / 2 powi (bexp ?x - 52) = real_of_int k" ..
  then have "real_of_int (rne (?x / 2 powi (bexp ?x - 52))) * 2 powi (bexp ?x - 52)
             = ?x / 2 powi (bexp ?x - 52) * 2 powi (bexp ?x - 52)" by simp
  also have "\<dots> = ?x" by simp
  finally show ?thesis using x(1) by (simp add: round_real_def ulp_exp_bexp)
qed

lemma ilog2_unique:
  assumes "2 powi e \<le> x" "x < 2 powi (e + 1)"
  shows "ilog2 x = e"
proof -
  have "(0::real) < 2 powi e" by simp
  then have x: "0 < x" using assms(1) by linarith
  have a: "2 powi ilog2 x \<le> x" "x < 2 powi (ilog2 x + 1)" using x by (rule ilog2_bounds)+
  have "e < ilog2 x + 1"
  proof (rule ccontr)
    assume "\<not> e < ilog2 x + 1"
    then have "(2::real) powi (ilog2 x + 1) \<le> 2 powi e" by (intro power_int_increasing) simp_all
    then show False using assms(1) a(2) by linarith
  qed
  moreover have "ilog2 x < e + 1"
  proof (rule ccontr)
    assume "\<not> ilog2 x < e + 1"
    then have "(2::real) powi (e + 1) \<le> 2 powi ilog2 x" by (intro power_int_increasing) simp_all
    then show False using assms(2) a(1) by linarith
  qed
  ultimately show ?thesis by simp
qed

lemma round_real_abs_less:
  assumes "x \<noteq> 0" "bexp x \<le> 1022"
  shows "\<bar>round_real x\<bar> < huge"
proof -
  have "\<bar>round_real x\<bar> \<le> 2 powi (bexp x + 1)" using assms(1) by (rule round_real_abs_le)
  also have "\<dots> \<le> 2 powi 1023" using assms(2) by (intro power_int_increasing) simp_all
  also have "\<dots> < 2 powi 1024" by (intro power_int_strict_increasing) simp_all
  also have "\<dots> = huge" by (simp only: huge_def power_int_numeral)
  finally show ?thesis .
qed

text \<open>Evaluation of a rounding whose binade is known.\<close>

lemma round_double_binade:
  assumes "2 powi e \<le> \<bar>x\<bar>" "\<bar>x\<bar> < 2 powi (e + 1)" "- 1022 \<le> e" "e \<le> 1022"
  shows "round_double x = Finite (of_int (rne (x / 2 powi (e - 52))) * 2 powi (e - 52))"
proof -
  have "(0::real) < 2 powi e" by simp
  then have "0 < \<bar>x\<bar>" using assms(1) by linarith
  then have x: "x \<noteq> 0" by simp
  have "ilog2 \<bar>x\<bar> = e" using assms(1,2) by (rule ilog2_unique)
  then have b: "bexp x = e" using assms(3) by (simp add: bexp_def)
  have "\<bar>round_real x\<bar> < huge" using x assms(4) b by (intro round_real_abs_less) simp_all
  then have "\<not> huge \<le> round_real x" "\<not> round_real x \<le> - huge" by linarith+
  then have "round_double x = Finite (round_real x)" by (simp add: round_double_def Let_def)
  then show ?thesis using x by (simp add: round_real_def ulp_exp_bexp b)
qed

text \<open>A number with at most 53 significant bits above \<open>2 powi (- 1074)\<close> is its own rounding.\<close>

lemma round_double_exact:
  assumes int: "x * 2 ^ n \<in> \<int>" and small: "\<bar>x\<bar> * 2 ^ n < 2 ^ 53" and n: "n \<le> 1074"
  shows "round_double x = Finite x"
proof (cases "x = 0")
  case True
  have "(0::real) < huge" by (simp add: huge_def)
  then show ?thesis using True by (simp add: round_double_def round_real_def)
next
  case False
  from int obtain m where m: "x * 2 ^ n = real_of_int m" by (auto elim: Ints_cases)
  have ax: "0 < \<bar>x\<bar>" using False by simp
  have ub: "\<bar>x\<bar> < 2 powi (53 - int n)"
  proof -
    have e: "(2::real) powi (53 - int n) = 2 ^ 53 / 2 ^ n"
      by (simp add: power_int_diff)
    have "\<bar>x\<bar> < 2 ^ 53 / 2 ^ n" using small by (simp add: pos_less_divide_eq)
    then show ?thesis by (simp only: e)
  qed
  have il: "ilog2 \<bar>x\<bar> \<le> 52 - int n"
  proof (rule ccontr)
    assume "\<not> ilog2 \<bar>x\<bar> \<le> 52 - int n"
    then have "(2::real) powi (53 - int n) \<le> 2 powi ilog2 \<bar>x\<bar>"
      by (intro power_int_increasing) simp_all
    moreover have "2 powi ilog2 \<bar>x\<bar> \<le> \<bar>x\<bar>" using ax by (rule ilog2_bounds)
    ultimately show False using ub by linarith
  qed
  have be: "bexp x \<le> 52 - int n" using il n by (simp add: bexp_def)
  define k where "k = nat (52 - int n - bexp x)"
  have kk: "int k = 52 - int n - bexp x" using be by (simp add: k_def)
  have "(2::real) powi (bexp x - 52) = 1 / (2 ^ n * 2 ^ k)"
  proof -
    have "bexp x - 52 = - int (n + k)" using kk by simp
    then have "(2::real) powi (bexp x - 52) = 2 powi (- int (n + k))" by simp
    also have "\<dots> = 1 / 2 ^ (n + k)" by (simp only: power_int_minus_divide power_int_of_nat)
    finally show ?thesis by (simp add: power_add)
  qed
  moreover have "x / (1 / (2 ^ n * 2 ^ k)) = real_of_int (m * 2 ^ k)"
  proof -
    have "x / (1 / (2 ^ n * 2 ^ k)) = (x * 2 ^ n) * 2 ^ k" by simp
    also have "\<dots> = real_of_int m * 2 ^ k" by (simp only: m)
    finally show ?thesis by simp
  qed
  ultimately have q: "x / 2 powi (bexp x - 52) = real_of_int (m * 2 ^ k)" by simp
  have "real_of_int (rne (real_of_int (m * 2 ^ k))) = real_of_int (m * 2 ^ k)"
    by (simp only: rne_of_int)
  then have "real_of_int (rne (x / 2 powi (bexp x - 52))) * 2 powi (bexp x - 52)
        = x / 2 powi (bexp x - 52) * 2 powi (bexp x - 52)"
    by (simp only: q)
  also have "\<dots> = x" by simp
  finally have r: "round_real x = x" using False by (simp add: round_real_def ulp_exp_bexp)
  have "\<bar>x\<bar> * 1 \<le> \<bar>x\<bar> * 2 ^ n" by (intro mult_left_mono) simp_all
  then have "\<bar>x\<bar> < 2 powi 53" using small by simp
  also have "\<dots> < 2 powi 1024" by (intro power_int_strict_increasing) simp_all
  also have "\<dots> = huge" by (simp only: huge_def power_int_numeral)
  finally have "\<not> huge \<le> x" "\<not> x \<le> - huge" by linarith+
  then show ?thesis by (simp add: round_double_def r Let_def)
qed

lemma huge_pos: "0 < huge"
  by (simp add: huge_def)

lemma round_double_zero [simp]: "round_double 0 = Finite 0"
  using huge_pos by (simp add: round_double_def round_real_def)

lemma round_double_not_NaN [simp]: "round_double a \<noteq> NaN"
  by (simp add: round_double_def Let_def)

lemma round_double_mono: "a \<le> b \<Longrightarrow> dle (round_double a) (round_double b)"
proof -
  assume "a \<le> b"
  then have "round_real a \<le> round_real b" by (rule round_real_mono)
  then show ?thesis using huge_pos by (auto simp: round_double_def Let_def)
qed

lemma dle_zero_iff: "dle (Finite 0) v \<longleftrightarrow> v = PosInf \<or> (\<exists>r. v = Finite r \<and> 0 \<le> r)"
  by (cases v) auto

lemma round_double_nonneg: "0 \<le> a \<Longrightarrow> dle (Finite 0) (round_double a)"
  using round_double_mono[of 0 a] by simp

lemma dle_Finite_right: "dle (Finite 0) u \<Longrightarrow> dle u (Finite b) \<Longrightarrow> \<exists>a. u = Finite a \<and> 0 \<le> a \<and> a \<le> b"
  by (cases u) auto

lemma dle_trans_nonneg: "dle (Finite 0) u \<Longrightarrow> dle u v \<Longrightarrow> dle (Finite 0) v"
  by (cases u; cases v) auto

lemma dmul_pos_mono:
  assumes "0 < t" "dle (Finite 0) u" "dle u v"
  shows "dle (dmul (Finite t) u) (dmul (Finite t) v)"
proof (cases u)
  case (Finite a)
  then have a: "0 \<le> a" using assms(2) by simp
  show ?thesis
  proof (cases v)
    case (Finite b)
    then have "t * a \<le> t * b" using assms(1,3) \<open>u = Finite a\<close> by simp
    then show ?thesis using Finite \<open>u = Finite a\<close> by (simp add: round_double_mono)
  next
    case PosInf
    have "dle (round_double (t * a)) PosInf" by (cases "round_double (t * a)") simp_all
    then show ?thesis using PosInf \<open>u = Finite a\<close> assms(1) by simp
  qed (use assms(3) Finite in simp_all)
next
  case PosInf
  then have "v = PosInf" using assms(3) by (cases v) simp_all
  then show ?thesis using PosInf assms(1) by simp
qed (use assms(2) in simp_all)

lemma dmul_pos_nonneg:
  assumes "0 < t" "dle (Finite 0) u"
  shows "dle (Finite 0) (dmul (Finite t) u)"
proof (cases u)
  case (Finite a)
  then have "0 \<le> t * a" using assms by simp
  then show ?thesis using Finite by (simp add: round_double_nonneg)
next
  case PosInf
  then show ?thesis using assms(1) by simp
qed (use assms(2) in simp_all)

lemma dadd_nonneg:
  assumes "dle (Finite 0) a" "dle (Finite 0) b"
  shows "dle (Finite 0) (dadd a b)"
proof (cases a; cases b)
  fix r s assume "a = Finite r" "b = Finite s"
  then show ?thesis using assms by (simp add: round_double_nonneg)
qed (use assms in simp_all)

lemma dadd_nonneg_mono:
  assumes "dle (Finite 0) a" "dle a a'" "dle (Finite 0) b" "dle b b'"
  shows "dle (dadd a b) (dadd a' b')"
proof -
  from assms(1) consider r where "a = Finite r" "0 \<le> r" | "a = PosInf" by (auto simp: dle_zero_iff)
  then show ?thesis
  proof cases
    case 1
    from assms(3) consider s where "b = Finite s" "0 \<le> s" | "b = PosInf" by (auto simp: dle_zero_iff)
    then show ?thesis
    proof cases
      case b: 1
      have ab: "dadd a b = round_double (r + s)" using 1 b by simp
      show ?thesis
      proof (cases a'; cases b')
        fix r' s' assume "a' = Finite r'" "b' = Finite s'"
        then show ?thesis using assms(2,4) 1 b by (simp add: round_double_mono)
      next
        fix r' assume "a' = Finite r'" "b' = PosInf"
        then show ?thesis unfolding ab by (cases "round_double (r + s)") simp_all
      next
        fix s' assume "a' = PosInf" "b' = Finite s'"
        then show ?thesis unfolding ab by (cases "round_double (r + s)") simp_all
      next
        assume "a' = PosInf" "b' = PosInf"
        then show ?thesis unfolding ab by (cases "round_double (r + s)") simp_all
      qed (use assms(2,4) 1 b in simp_all)
    next
      case b: 2
      then have b': "b' = PosInf" using assms(4) by (cases b') simp_all
      have "a' = PosInf \<or> (\<exists>r'. a' = Finite r')" using assms(2) 1 by (cases a') simp_all
      then show ?thesis using 1 b b' by auto
    qed
  next
    case 2
    then have a': "a' = PosInf" using assms(2) by (cases a') simp_all
    from assms(3) have "b = PosInf \<or> (\<exists>s. b = Finite s)" by (auto simp: dle_zero_iff)
    moreover have "b' = PosInf \<or> (\<exists>s'. b' = Finite s')"
      using assms(3,4) by (cases b; cases b') simp_all
    ultimately show ?thesis using 2 a' by auto
  qed
qed

section \<open>Properties of the window loop\<close>

subsection \<open>The loop computes a prefix of the candidate windows\<close>

lemma and_then_Inr_iff: "and_then r f = Inr y \<longleftrightarrow> (\<exists>v. r = Inr v \<and> f v = Inr y)"
  by (cases r) (simp_all add: and_then_def)

lemma and_then_Inr [simp]: "and_then (Inr v) f = f v"
  by (simp add: and_then_def)

lemma and_then_Inl [simp]: "and_then (Inl e) f = Inl e"
  by (simp add: and_then_def)

lemma window_loop_rows:
  assumes len: "length X = M" and kn: "k \<le> n" and nM: "n \<le> M"
    and filled: "take k X = map R [0..<k]"
    and rows: "\<And>i. k \<le> i \<Longrightarrow> i < n \<Longrightarrow> window sp x dim' Tau dT i = Inr (Some (R i))"
    and stop: "n < M \<Longrightarrow> window sp x dim' Tau dT n = Inr None"
  shows "window_loop sp x dim' Tau dT [k..<M] X = Inr (map R [0..<n])"
  using kn len filled rows
proof (induction k arbitrary: X rule: inc_induct)
  case base
  show ?case
  proof (cases "n < M")
    case True
    then have "[n..<M] = n # [Suc n..<M]" by (simp add: upt_conv_Cons)
    then show ?thesis using stop[OF True] base.prems(2) by simp
  next
    case False
    then have "n = M" using nM by simp
    then show ?thesis using base.prems by simp
  qed
next
  case (step m)
  have mM: "m < M" using step.hyps nM by simp
  then have up: "[m..<M] = m # [Suc m..<M]" by (simp add: upt_conv_Cons)
  have w: "window sp x dim' Tau dT m = Inr (Some (R m))" using step.hyps by (intro step.prems(3)) simp_all
  let ?X = "X[m := R m]"
  have "window_loop sp x dim' Tau dT [Suc m..<M] ?X = Inr (map R [0..<n])"
  proof (rule step.IH)
    show "length ?X = M" using step.prems(1) by simp
    show "take (Suc m) ?X = map R [0..<Suc m]"
      using step.prems(1,2) mM by (simp add: take_Suc_conv_app_nth)
    show "window sp x dim' Tau dT i = Inr (Some (R i))" if "Suc m \<le> i" "i < n" for i
      using that by (intro step.prems(3)) simp_all
  qed
  then show ?case by (simp add: up w)
qed

lemma window_loop_result:
  assumes "window_loop sp x dim' Tau dT [k..<M] X = Inr Y" and "length X = M" and "k \<le> M"
  shows "\<exists>n. k \<le> n \<and> n \<le> M \<and> length Y = n \<and>
             (\<forall>i. k \<le> i \<and> i < n \<longrightarrow> window sp x dim' Tau dT i = Inr (Some (Y ! i))) \<and>
             (n < M \<longrightarrow> window sp x dim' Tau dT n = Inr None) \<and>
             take k Y = take k X"
  using assms(3,1,2)
proof (induction k arbitrary: X rule: inc_induct)
  case base
  then show ?case by (intro exI[of _ M]) auto
next
  case (step m)
  have up: "[m..<M] = m # [Suc m..<M]" using step.hyps by (simp add: upt_conv_Cons)
  show ?case
  proof (cases "window sp x dim' Tau dT m")
    case (Inl e)
    then show ?thesis using step.prems(1) by (simp add: up)
  next
    case (Inr o1)
    show ?thesis
    proof (cases o1)
      case None
      then have "Y = take m X" using step.prems(1) Inr by (simp add: up)
      then show ?thesis using step.hyps step.prems(2) Inr None by (intro exI[of _ m]) auto
    next
      case (Some r)
      let ?X = "X[m := r]"
      have "window_loop sp x dim' Tau dT [Suc m..<M] ?X = Inr Y"
        using step.prems(1) Inr Some by (simp add: up)
      moreover have "length ?X = M" using step.prems(2) by simp
      ultimately obtain n where n: "Suc m \<le> n" "n \<le> M" "length Y = n"
          "\<forall>i. Suc m \<le> i \<and> i < n \<longrightarrow> window sp x dim' Tau dT i = Inr (Some (Y ! i))"
          "n < M \<longrightarrow> window sp x dim' Tau dT n = Inr None"
          "take (Suc m) Y = take (Suc m) ?X"
        using step.IH by blast
      have mY: "m < length Y" using n(1,3) by simp
      have mX: "m < length X" using step.hyps step.prems(2) by simp
      have "Y ! m = take (Suc m) Y ! m" by simp
      also have "\<dots> = take (Suc m) ?X ! m" by (simp only: n(6))
      also have "\<dots> = r" using mX by simp
      finally have Ym: "Y ! m = r" .
      have "take m Y = take m (take (Suc m) Y)" by (simp add: min_def)
      also have "\<dots> = take m (take (Suc m) ?X)" by (simp only: n(6))
      also have "\<dots> = take m X" by (simp add: min_def)
      finally have tk: "take m Y = take m X" .
      have "\<forall>i. m \<le> i \<and> i < n \<longrightarrow> window sp x dim' Tau dT i = Inr (Some (Y ! i))"
      proof (intro allI impI)
        fix i assume i: "m \<le> i \<and> i < n"
        show "window sp x dim' Tau dT i = Inr (Some (Y ! i))"
        proof (cases "i = m")
          case True
          then show ?thesis using Inr Some Ym by simp
        next
          case False
          then show ?thesis using i n(4) by simp
        qed
      qed
      then show ?thesis using n(1,2,3,5) tk by (intro exI[of _ n]) simp
    qed
  qed
qed

subsection \<open>Sample positions and bounds of a window\<close>

lemma py_float_cases:
  "py_float n = Inr fi \<Longrightarrow> \<exists>r. fi = Finite r \<and> round_double (of_int n) = Finite r"
  by (cases "round_double (of_int n)") (auto simp: py_float_def)

lemma py_float_nat_nonneg:
  assumes "py_float (int i) = Inr fi"
  shows "dle (Finite 0) fi"
proof -
  obtain r where r: "fi = Finite r" "round_double (of_int (int i)) = Finite r"
    using py_float_cases[OF assms] by blast
  have "dle (Finite 0) (round_double (of_int (int i)))" by (intro round_double_nonneg) simp
  then show ?thesis using r by simp
qed

lemma py_float_nat_mono:
  assumes "py_float (int j) = Inr fj" "i \<le> j"
  shows "\<exists>fi. py_float (int i) = Inr fi \<and> dle fi fj"
proof -
  obtain r where r: "fj = Finite r" "round_double (of_int (int j)) = Finite r"
    using py_float_cases[OF assms(1)] by blast
  have "dle (round_double (of_int (int i))) (round_double (of_int (int j)))"
    using assms(2) by (intro round_double_mono) simp
  moreover have "dle (Finite 0) (round_double (of_int (int i)))" by (intro round_double_nonneg) simp
  ultimately have "dle (Finite 0) (round_double (of_int (int i)))"
      "dle (round_double (of_int (int i))) (Finite r)"
    using r(2) by simp_all
  then obtain a where "round_double (of_int (int i)) = Finite a" "a \<le> r"
    using dle_Finite_right by blast
  then show ?thesis using r(1) by (simp add: py_float_def)
qed

lemma idxx_Inr:
  "idxx dim' (Finite t) (Finite d) i = Inr p \<longleftrightarrow>
     (\<exists>fi. py_float (int i) = Inr fi \<and> p = map (pos d t fi) [0..<nat dim'])"
  by (auto simp: idxx_def and_then_Inr_iff pos_def)

lemma pos_nonneg:
  assumes "0 < d" "0 < t" "dle (Finite 0) fi"
  shows "dle (Finite 0) (pos d t fi j)"
  unfolding pos_def
  by (intro dadd_nonneg dmul_pos_nonneg assms round_double_nonneg) simp

lemma pos_mono:
  assumes "0 < d" "0 < t" "dle (Finite 0) fi" "dle fi fi'" "j \<le> j'"
  shows "dle (pos d t fi j) (pos d t fi' j')"
  unfolding pos_def
proof (intro dadd_nonneg_mono)
  show "dle (Finite 0) (dmul (Finite d) fi)" using assms by (intro dmul_pos_nonneg)
  show "dle (dmul (Finite d) fi) (dmul (Finite d) fi')" using assms by (intro dmul_pos_mono)
  show "dle (Finite 0) (dmul (Finite t) (round_double (real j)))"
    using assms by (intro dmul_pos_nonneg round_double_nonneg) simp_all
  show "dle (dmul (Finite t) (round_double (real j))) (dmul (Finite t) (round_double (real j')))"
    using assms by (intro dmul_pos_mono round_double_nonneg round_double_mono) simp_all
qed

lemma dle_refl_nonneg: "dle (Finite 0) u \<Longrightarrow> dle u u"
  by (cases u) simp_all

lemma endp_Inr: "endp p = Inr e \<longleftrightarrow> p \<noteq> [] \<and> (\<exists>v. last p = Finite v \<and> e = \<lceil>v\<rceil> + 2)"
  by (cases "last p") (auto simp: endp_def and_then_def)

lemma start_Inr: "start p = Inr s \<longleftrightarrow> p \<noteq> [] \<and> (\<exists>v. hd p = Finite v \<and> s = \<lfloor>v\<rfloor>)"
  by (cases "hd p") (auto simp: start_def)

text \<open>The positions of a window whose right bound could be computed.\<close>

lemma window_positions:
  assumes d: "0 < d" and t: "0 < t"
    and p: "idxx dim' (Finite t) (Finite d) i = Inr p" and e: "endp p = Inr e"
  shows "\<exists>vs. p = map Finite vs \<and> length vs = nat dim' \<and> vs \<noteq> [] \<and>
              (\<forall>v \<in> set vs. 0 \<le> v \<and> v \<le> last vs) \<and>
              start p = Inr \<lfloor>hd vs\<rfloor> \<and> e = \<lceil>last vs\<rceil> + 2"
proof -
  obtain fi where fi: "py_float (int i) = Inr fi" and pm: "p = map (pos d t fi) [0..<nat dim']"
    using p by (auto simp: idxx_Inr)
  have nn: "dle (Finite 0) fi" using fi by (rule py_float_nat_nonneg)
  obtain vl where ne: "p \<noteq> []" and vl: "last p = Finite vl" "e = \<lceil>vl\<rceil> + 2"
    using e by (auto simp: endp_Inr)
  have n: "0 < nat dim'" using ne pm by simp
  have lastp: "last p = pos d t fi (nat dim' - 1)" using n pm by (simp add: last_map)
  have fin: "\<exists>v. pos d t fi j = Finite v \<and> 0 \<le> v \<and> v \<le> vl" if "j < nat dim'" for j
  proof -
    have "dle (pos d t fi j) (pos d t fi (nat dim' - 1))"
      using d t nn that by (intro pos_mono dle_refl_nonneg) simp_all
    then have "dle (pos d t fi j) (Finite vl)" using lastp vl(1) by simp
    moreover have "dle (Finite 0) (pos d t fi j)" using d t nn by (rule pos_nonneg)
    ultimately show ?thesis using dle_Finite_right by blast
  qed
  define vs where "vs = map (\<lambda>j. case pos d t fi j of Finite v \<Rightarrow> v | _ \<Rightarrow> 0) [0..<nat dim']"
  have pvs: "p = map Finite vs"
    unfolding pm vs_def map_map
  proof (rule map_cong[OF refl])
    fix j assume "j \<in> set [0..<nat dim']"
    then obtain v where "pos d t fi j = Finite v" using fin by auto
    then show "pos d t fi j = (Finite \<circ> (\<lambda>j. case pos d t fi j of Finite v \<Rightarrow> v | _ \<Rightarrow> 0)) j" by simp
  qed
  have len: "length vs = nat dim'" by (simp add: vs_def)
  have vne: "vs \<noteq> []" using n len by auto
  have "Finite (last vs) = last p" using vne pvs by (simp add: last_map)
  then have lv: "last vs = vl" using vl(1) by simp
  have bnd: "\<forall>v \<in> set vs. 0 \<le> v \<and> v \<le> last vs"
  proof
    fix v assume "v \<in> set vs"
    then obtain j where j: "j < nat dim'" "v = (case pos d t fi j of Finite v \<Rightarrow> v | _ \<Rightarrow> 0)"
      by (auto simp: vs_def)
    obtain w where "pos d t fi j = Finite w" "0 \<le> w" "w \<le> vl" using fin[OF j(1)] by blast
    then show "0 \<le> v \<and> v \<le> last vs" using j(2) lv by simp
  qed
  have "hd p = Finite (hd vs)" using vne pvs by (simp add: hd_map)
  then have "start p = Inr \<lfloor>hd vs\<rfloor>" using ne by (simp add: start_def)
  then show ?thesis using pvs len vne bnd vl(2) lv by blast
qed

lemma fits_iff:
  "fits x dim' Tau dT i \<longleftrightarrow>
     (\<exists>p s e. idxx dim' Tau dT i = Inr p \<and> start p = Inr s \<and> endp p = Inr e \<and> e < int (length x))"
  by (auto simp: fits_def split: sum.splits)

lemma fits_antimono:
  assumes d: "0 < d" and t: "0 < t" and ij: "i \<le> j" and fj: "fits x dim' (Finite t) (Finite d) j"
  shows "fits x dim' (Finite t) (Finite d) i"
proof -
  obtain p' e' where p': "idxx dim' (Finite t) (Finite d) j = Inr p'" and e': "endp p' = Inr e'"
    and lt: "e' < int (length x)"
    using fj by (auto simp: fits_iff)
  obtain fj' where fj': "py_float (int j) = Inr fj'" and pm': "p' = map (pos d t fj') [0..<nat dim']"
    using p' by (auto simp: idxx_Inr)
  obtain vl' where ne': "p' \<noteq> []" and vl': "last p' = Finite vl'" "e' = \<lceil>vl'\<rceil> + 2"
    using e' by (auto simp: endp_Inr)
  have n: "0 < nat dim'" using ne' pm' by simp
  obtain fi where fi: "py_float (int i) = Inr fi" and le: "dle fi fj'"
    using py_float_nat_mono[OF fj' ij] by blast
  have nn: "dle (Finite 0) fi" using fi by (rule py_float_nat_nonneg)
  define p where "p = map (pos d t fi) [0..<nat dim']"
  have p: "idxx dim' (Finite t) (Finite d) i = Inr p" using fi by (auto simp: idxx_Inr p_def)
  have ne: "p \<noteq> []" using n by (simp add: p_def)
  have "dle (pos d t fi (nat dim' - 1)) (pos d t fj' (nat dim' - 1))"
    using d t nn le by (intro pos_mono) simp_all
  moreover have "last p' = pos d t fj' (nat dim' - 1)" using n pm' by (simp add: last_map)
  moreover have "last p = pos d t fi (nat dim' - 1)" using n by (simp add: p_def last_map)
  moreover have "dle (Finite 0) (pos d t fi (nat dim' - 1))" using d t nn by (rule pos_nonneg)
  ultimately have "dle (Finite 0) (last p)" "dle (last p) (Finite vl')"
    using vl'(1) by simp_all
  then obtain vl where vl: "last p = Finite vl" "vl \<le> vl'"
    using dle_Finite_right by blast
  have e: "endp p = Inr (\<lceil>vl\<rceil> + 2)" using ne vl(1) by (simp add: endp_Inr)
  obtain vs :: "real list" where "start p = Inr \<lfloor>hd vs\<rfloor>"
    using window_positions[OF d t p e] by blast
  moreover have "\<lceil>vl\<rceil> + 2 < int (length x)" using vl(2) lt vl'(2) ceiling_mono[of vl vl'] by linarith
  ultimately show ?thesis using p e by (auto simp: fits_iff)
qed

subsection \<open>The rows of a returned window matrix\<close>

lemma window_unfold:
  assumes "idxx dim' Tau dT i = Inr p" "start p = Inr s" "endp p = Inr e"
  shows "window sp x dim' Tau dT i =
           (if e \<ge> int (length x) then Inr None
            else and_then (sp (py_slice (arange (length x)) s (e + 1)) (py_slice x s (e + 1)) p) (\<lambda>v.
                 and_then (broadcast (nat dim') v) (\<lambda>r. Inr (Some r))))"
  using assms by (simp add: window_def)

lemma window_Inr:
  assumes "window sp x dim' Tau dT i = Inr w"
  shows "\<exists>p s e. idxx dim' Tau dT i = Inr p \<and> start p = Inr s \<and> endp p = Inr e"
proof -
  from assms obtain p where p: "idxx dim' Tau dT i = Inr p"
    by (auto simp: window_def and_then_Inr_iff)
  from assms p obtain s where s: "start p = Inr s"
    by (auto simp: window_def and_then_Inr_iff)
  from assms p s obtain e where "endp p = Inr e"
    by (auto simp: window_def and_then_Inr_iff)
  then show ?thesis using p s by blast
qed

lemma window_Some_iff:
  "window sp x dim' Tau dT i = Inr (Some r) \<longleftrightarrow>
     (\<exists>p s e v. idxx dim' Tau dT i = Inr p \<and> start p = Inr s \<and> endp p = Inr e \<and>
        e < int (length x) \<and>
        sp (py_slice (arange (length x)) s (e + 1)) (py_slice x s (e + 1)) p = Inr v \<and>
        broadcast (nat dim') v = Inr r)"
proof
  assume w: "window sp x dim' Tau dT i = Inr (Some r)"
  then obtain p s e where pse: "idxx dim' Tau dT i = Inr p" "start p = Inr s" "endp p = Inr e"
    using window_Inr by blast
  have lt: "e < int (length x)"
    using w by (simp add: window_unfold[OF pse] split: if_splits)
  then have "and_then (sp (py_slice (arange (length x)) s (e + 1)) (py_slice x s (e + 1)) p) (\<lambda>v.
                 and_then (broadcast (nat dim') v) (\<lambda>r. Inr (Some r))) = Inr (Some r)"
    using w by (simp add: window_unfold[OF pse])
  then obtain v where "sp (py_slice (arange (length x)) s (e + 1)) (py_slice x s (e + 1)) p = Inr v"
    "broadcast (nat dim') v = Inr r"
    by (auto simp: and_then_Inr_iff)
  then show "\<exists>p s e v. idxx dim' Tau dT i = Inr p \<and> start p = Inr s \<and> endp p = Inr e \<and>
        e < int (length x) \<and>
        sp (py_slice (arange (length x)) s (e + 1)) (py_slice x s (e + 1)) p = Inr v \<and>
        broadcast (nat dim') v = Inr r"
    using pse lt by blast
next
  assume "\<exists>p s e v. idxx dim' Tau dT i = Inr p \<and> start p = Inr s \<and> endp p = Inr e \<and>
        e < int (length x) \<and>
        sp (py_slice (arange (length x)) s (e + 1)) (py_slice x s (e + 1)) p = Inr v \<and>
        broadcast (nat dim') v = Inr r"
  then obtain p s e v where pse: "idxx dim' Tau dT i = Inr p" "start p = Inr s" "endp p = Inr e"
    and rest: "e < int (length x)"
      "sp (py_slice (arange (length x)) s (e + 1)) (py_slice x s (e + 1)) p = Inr v"
      "broadcast (nat dim') v = Inr r"
    by blast
  show "window sp x dim' Tau dT i = Inr (Some r)"
    using rest by (simp add: window_unfold[OF pse])
qed

lemma window_None_iff:
  "window sp x dim' Tau dT i = Inr None \<longleftrightarrow>
     (\<exists>p s e. idxx dim' Tau dT i = Inr p \<and> start p = Inr s \<and> endp p = Inr e \<and>
        int (length x) \<le> e)"
proof
  assume w: "window sp x dim' Tau dT i = Inr None"
  then obtain p s e where pse: "idxx dim' Tau dT i = Inr p" "start p = Inr s" "endp p = Inr e"
    using window_Inr by blast
  have "int (length x) \<le> e"
  proof (rule ccontr)
    assume "\<not> int (length x) \<le> e"
    then have "and_then (sp (py_slice (arange (length x)) s (e + 1)) (py_slice x s (e + 1)) p) (\<lambda>v.
                 and_then (broadcast (nat dim') v) (\<lambda>r. Inr (Some r))) = Inr None"
      using w by (simp add: window_unfold[OF pse])
    then show False by (auto simp: and_then_Inr_iff)
  qed
  then show "\<exists>p s e. idxx dim' Tau dT i = Inr p \<and> start p = Inr s \<and> endp p = Inr e \<and>
        int (length x) \<le> e"
    using pse by blast
next
  assume "\<exists>p s e. idxx dim' Tau dT i = Inr p \<and> start p = Inr s \<and> endp p = Inr e \<and>
        int (length x) \<le> e"
  then obtain p s e where pse: "idxx dim' Tau dT i = Inr p" "start p = Inr s" "endp p = Inr e"
    and "int (length x) \<le> e" by blast
  then show "window sp x dim' Tau dT i = Inr None" by (simp add: window_unfold[OF pse])
qed

lemma window_Some_fits: "window sp x dim' Tau dT i = Inr (Some r) \<Longrightarrow> fits x dim' Tau dT i"
  by (auto simp: window_Some_iff fits_iff)

lemma window_None_not_fits: "window sp x dim' Tau dT i = Inr None \<Longrightarrow> \<not> fits x dim' Tau dT i"
  by (auto simp: window_None_iff fits_iff)

lemma broadcast_length: "broadcast c v = Inr r \<Longrightarrow> length r = c"
  by (auto simp: broadcast_def split: if_splits)

lemma np_zeros_Inr:
  "np_zeros al r c = Inr X \<longleftrightarrow>
     index_range r \<and> index_range c \<and> 0 \<le> r \<and> 0 \<le> c \<and>
     alloc_error al (nat r) (nat c) = None \<and> X = zeros (nat r) (nat c)"
  by (auto simp: np_zeros_def split: option.splits)

lemma length_zeros [simp]: "length (zeros r c) = r"
  by (simp add: zeros_def)

text \<open>Running the whole function when every window is known.\<close>

lemma getSlidingWindow_eval:
  assumes M: "NWindows x dim' Tau dT = Inr M" "0 < M"
    and al: "np_zeros al M dim' = Inr X0"
    and n: "n \<le> nat M"
    and rows: "\<And>i. i < n \<Longrightarrow> window sp x dim' Tau dT i = Inr (Some (R i))"
    and stop: "n < nat M \<Longrightarrow> window sp x dim' Tau dT n = Inr None"
  shows "getSlidingWindow sp al x dim' Tau dT = \<lparr>printed = [], result = Inr (map R [0..<n])\<rparr>"
proof -
  have z: "np_zeros al M dim' = Inr (zeros (nat M) (nat dim'))"
    using al by (simp add: np_zeros_Inr)
  have "window_loop sp x dim' Tau dT [0..<nat M] (zeros (nat M) (nat dim')) = Inr (map R [0..<n])"
    using n rows stop by (intro window_loop_rows) simp_all
  then show ?thesis using M z by (simp add: getSlidingWindow_def)
qed

text \<open>What a returned window matrix consists of.\<close>

lemma returned_windows:
  assumes M: "NWindows x dim' Tau dT = Inr M" "0 < M"
    and X: "result (getSlidingWindow sp al x dim' Tau dT) = Inr X"
  shows "\<exists>n. n \<le> nat M \<and> length X = n \<and>
             (\<forall>i<n. window sp x dim' Tau dT i = Inr (Some (X ! i))) \<and>
             (n < nat M \<longrightarrow> window sp x dim' Tau dT n = Inr None)"
proof -
  have "and_then (np_zeros al M dim') (window_loop sp x dim' Tau dT [0..<nat M]) = Inr X"
    using M X by (simp add: getSlidingWindow_def)
  then obtain X0 where X0: "np_zeros al M dim' = Inr X0"
    and loop: "window_loop sp x dim' Tau dT [0..<nat M] X0 = Inr X"
    by (auto simp: and_then_Inr_iff)
  have "length X0 = nat M" using X0 by (auto simp: np_zeros_Inr)
  from window_loop_result[OF loop this] show ?thesis by auto
qed

lemma filter_upt_prefix:
  assumes "n \<le> M" "\<And>i. i < M \<Longrightarrow> P i \<longleftrightarrow> i < n"
  shows "filter P [0..<M] = [0..<n]"
  using assms
proof (induction M)
  case 0
  then show ?case by simp
next
  case (Suc M)
  show ?case
  proof (cases "n = Suc M")
    case True
    then have "\<forall>i \<in> set [0..<Suc M]. P i" using Suc.prems(2) by auto
    then have "filter P [0..<Suc M] = [0..<Suc M]" by (simp only: filter_True)
    then show ?thesis using True by simp
  next
    case False
    then have n: "n \<le> M" using Suc.prems(1) by simp
    then have "filter P [0..<M] = [0..<n]" using Suc.prems(2) by (intro Suc.IH) simp_all
    moreover have "\<not> P M" using Suc.prems(2)[of M] n by simp
    ultimately show ?thesis by simp
  qed
qed


lemma round_double_of_int:
  assumes "\<bar>n\<bar> \<le> 2 ^ 53"
  shows "round_double (of_int n) = Finite (of_int n)"
proof -
  have "real_of_int n * 2 ^ 0 \<in> \<int>" by simp
  moreover have "\<bar>real_of_int n\<bar> \<le> 2 ^ 53"
    using assms by (metis of_int_abs of_int_le_iff of_int_numeral of_int_power)
  ultimately show ?thesis
  proof (cases "\<bar>real_of_int n\<bar> = 2 ^ 53")
    case True
    have r: "round_real (of_int n) = of_int n" using assms by (rule round_real_of_int)
    have "(2::real) ^ 53 = 2 powi 53" by simp
    also have "\<dots> < 2 powi 1024" by (intro power_int_strict_increasing) simp_all
    also have "\<dots> = huge" by (simp only: huge_def power_int_numeral)
    finally have "\<not> huge \<le> of_int n" "\<not> of_int n \<le> - huge" using True by linarith+
    then show ?thesis by (simp add: round_double_def r Let_def)
  next
    case False
    then have "\<bar>real_of_int n\<bar> * 2 ^ 0 < 2 ^ 53" using \<open>\<bar>real_of_int n\<bar> \<le> 2 ^ 53\<close> by simp
    then show ?thesis using \<open>real_of_int n * 2 ^ 0 \<in> \<int>\<close> by (intro round_double_exact[where n = 0]) simp_all
  qed
qed

lemma py_float_small: "\<bar>n\<bar> \<le> 2 ^ 53 \<Longrightarrow> py_float n = Inr (Finite (of_int n))"
  by (simp add: py_float_def round_double_of_int)

subsection \<open>Slices inside the array\<close>

lemma py_slice_in_range:
  assumes "0 \<le> s" "s \<le> e" "e \<le> int (length a)"
  shows "py_slice a s e = map (\<lambda>k. a ! nat k) [s..e - 1]"
proof (rule nth_equalityI)
  have lo: "slice_bound (length a) s = nat s" and hi: "slice_bound (length a) e = nat e"
    using assms by (simp_all add: slice_bound_def)
  show len: "length (py_slice a s e) = length (map (\<lambda>k. a ! nat k) [s..e - 1])"
    using assms by (simp add: py_slice_def lo hi Let_def)
  fix i assume "i < length (py_slice a s e)"
  then have i: "i < nat e - nat s" using assms by (simp add: py_slice_def lo hi Let_def)
  then have "s + int i \<le> e - 1" using assms by linarith
  then have "[s..e - 1] ! i = s + int i" by (rule nth_upto)
  moreover have "nat (s + int i) = nat s + i" using assms by simp
  moreover have "i < length [s..e - 1]" using i assms by simp
  moreover have "nat s + i \<le> length a" using i assms by linarith
  ultimately show "py_slice a s e ! i = map (\<lambda>k. a ! nat k) [s..e - 1] ! i"
    using i by (simp add: py_slice_def lo hi Let_def)
qed

section \<open>Runs of the model\<close>

lemma window_unfold':
  assumes "idxx dim' Tau dT i = Inr p" "start p = Inr s" "endp p = Inr e" "length x = N"
  shows "window sp x dim' Tau dT i =
           (if e \<ge> int N then Inr None
            else and_then (sp (py_slice (arange N) s (e + 1)) (py_slice x s (e + 1)) p) (\<lambda>v.
                 and_then (broadcast (nat dim') v) (\<lambda>r. Inr (Some r))))"
  using window_unfold[OF assms(1,2,3)] assms(4) by simp

lemma upts: "[0..<1] = [0]" "[0..<2] = [0, 1]" "[0..<3] = [0, 1, 2]" "[0..<4] = [0, 1, 2, 3]"
  by code_simp+

lemmas rd = round_double_binade[where e = "- 4"] round_double_binade[where e = "- 1"] round_double_binade[where e = 0]
  round_double_binade[where e = 1] round_double_binade[where e = 2]
  round_double_binade[where e = 3] rne_def

lemma exA_count: "NWindows [2, 7, 1, 8, 2, 8] 2 (Finite 1) (Finite 1) = Inr 4"
  by (simp add: NWindows_def py_float_def py_truediv_def dsub_def rd)

lemma exA_idxx0: "idxx 2 (Finite 1) (Finite 1) 0 = Inr [Finite 0, Finite 1]"
  by (simp add: idxx_def py_float_def upts rd)

lemma exA_bounds0: "start [Finite 0, Finite 1] = Inr 0" "endp [Finite 0, Finite 1] = Inr 3"
  by (simp_all add: start_def endp_def)

lemma exA_slices0: "py_slice (arange 6) 0 4 = [0, 1, 2, 3]" "py_slice ([2, 7, 1, 8, 2, 8] :: real list) 0 4 = [2, 7, 1, 8]"
  by code_simp+

lemma exA_window0: "window linear_spline [2, 7, 1, 8, 2, 8] 2 (Finite 1) (Finite 1) 0 = Inr (Some [2, 7])"
  by (subst window_unfold'[OF exA_idxx0 exA_bounds0, where N = 6])
     (simp_all add: exA_slices0 linear_spline_def broadcast_def)

lemma exA_idxx1: "idxx 2 (Finite 1) (Finite 1) 1 = Inr [Finite 1, Finite 2]"
  by (simp add: idxx_def py_float_def upts rd)

lemma exA_bounds1: "start [Finite 1, Finite 2] = Inr 1" "endp [Finite 1, Finite 2] = Inr 4"
  by (simp_all add: start_def endp_def)

lemma exA_slices1: "py_slice (arange 6) 1 5 = [1, 2, 3, 4]" "py_slice ([2, 7, 1, 8, 2, 8] :: real list) 1 5 = [7, 1, 8, 2]"
  by code_simp+

lemma exA_window1: "window linear_spline [2, 7, 1, 8, 2, 8] 2 (Finite 1) (Finite 1) 1 = Inr (Some [7, 1])"
  by (subst window_unfold'[OF exA_idxx1 exA_bounds1, where N = 6])
     (simp_all add: exA_slices1 linear_spline_def broadcast_def)

lemma exA_idxx2: "idxx 2 (Finite 1) (Finite 1) 2 = Inr [Finite 2, Finite 3]"
  by (simp add: idxx_def py_float_def upts rd)

lemma exA_bounds2: "start [Finite 2, Finite 3] = Inr 2" "endp [Finite 2, Finite 3] = Inr 5"
  by (simp_all add: start_def endp_def)

lemma exA_slices2: "py_slice (arange 6) 2 6 = [2, 3, 4, 5]" "py_slice ([2, 7, 1, 8, 2, 8] :: real list) 2 6 = [1, 8, 2, 8]"
  by code_simp+

lemma exA_window2: "window linear_spline [2, 7, 1, 8, 2, 8] 2 (Finite 1) (Finite 1) 2 = Inr (Some [1, 8])"
  by (subst window_unfold'[OF exA_idxx2 exA_bounds2, where N = 6])
     (simp_all add: exA_slices2 linear_spline_def broadcast_def)

lemma exA_idxx3: "idxx 2 (Finite 1) (Finite 1) 3 = Inr [Finite 3, Finite 4]"
  by (simp add: idxx_def py_float_def upts rd)

lemma exA_bounds3: "start [Finite 3, Finite 4] = Inr 3" "endp [Finite 3, Finite 4] = Inr 6"
  by (simp_all add: start_def endp_def)

lemma exA_window3: "window linear_spline [2, 7, 1, 8, 2, 8] 2 (Finite 1) (Finite 1) 3 = Inr None"
  by (subst window_unfold'[OF exA_idxx3 exA_bounds3, where N = 6]) simp_all

lemma exA_result: "getSlidingWindow linear_spline unlimited [2, 7, 1, 8, 2, 8] 2 (Finite 1) (Finite 1) =
    \<lparr>printed = [], result = Inr [[2, 7], [7, 1], [1, 8]]\<rparr>"
proof -
  have rows: "window linear_spline [2, 7, 1, 8, 2, 8] 2 (Finite 1) (Finite 1) i = Inr (Some ([[2, 7], [7, 1], [1, 8]] ! i))" if lt: "i < 3" for i
  proof -
    consider "i = 0" | "i = 1" | "i = 2" using lt by linarith
    then show ?thesis
    proof cases
      case 1
      then show ?thesis using exA_window0 by simp
    next
      case 2
      then show ?thesis using exA_window1 by simp
    next
      case 3
      then show ?thesis using exA_window2 by simp
    qed
  qed
  have stop: "window linear_spline [2, 7, 1, 8, 2, 8] 2 (Finite 1) (Finite 1) 3 = Inr None" by (rule exA_window3)
  have "getSlidingWindow linear_spline unlimited [2, 7, 1, 8, 2, 8] 2 (Finite 1) (Finite 1) =
    \<lparr>printed = [], result = Inr (map ((!) [[2, 7], [7, 1], [1, 8]]) [0..<3])\<rparr>"
    using exA_count rows stop by (intro getSlidingWindow_eval[where M = 4]) (simp_all add: np_zeros_def index_range_def unlimited_def)
  then show ?thesis by (simp add: upts)
qed

lemma exB_count: "NWindows [1, 4, 9, 16, 25, 36, 49] 2 (Finite (3 / 2)) (Finite 1) = Inr 4"
  by (simp add: NWindows_def py_float_def py_truediv_def dsub_def rd)

lemma exB_idxx0: "idxx 2 (Finite (3 / 2)) (Finite 1) 0 = Inr [Finite 0, Finite (3 / 2)]"
  by (simp add: idxx_def py_float_def upts rd)

lemma exB_bounds0: "start [Finite 0, Finite (3 / 2)] = Inr 0" "endp [Finite 0, Finite (3 / 2)] = Inr 4"
  by (simp_all add: start_def endp_def)

lemma exB_slices0: "py_slice (arange 7) 0 5 = [0, 1, 2, 3, 4]" "py_slice ([1, 4, 9, 16, 25, 36, 49] :: real list) 0 5 = [1, 4, 9, 16, 25]"
  by code_simp+

lemma exB_window0: "window linear_spline [1, 4, 9, 16, 25, 36, 49] 2 (Finite (3 / 2)) (Finite 1) 0 = Inr (Some [1, (13 / 2)])"
  by (subst window_unfold'[OF exB_idxx0 exB_bounds0, where N = 7])
     (simp_all add: exB_slices0 linear_spline_def broadcast_def)

lemma exB_idxx1: "idxx 2 (Finite (3 / 2)) (Finite 1) 1 = Inr [Finite 1, Finite (5 / 2)]"
  by (simp add: idxx_def py_float_def upts rd)

lemma exB_bounds1: "start [Finite 1, Finite (5 / 2)] = Inr 1" "endp [Finite 1, Finite (5 / 2)] = Inr 5"
  by (simp_all add: start_def endp_def)

lemma exB_slices1: "py_slice (arange 7) 1 6 = [1, 2, 3, 4, 5]" "py_slice ([1, 4, 9, 16, 25, 36, 49] :: real list) 1 6 = [4, 9, 16, 25, 36]"
  by code_simp+

lemma exB_window1: "window linear_spline [1, 4, 9, 16, 25, 36, 49] 2 (Finite (3 / 2)) (Finite 1) 1 = Inr (Some [4, (25 / 2)])"
  by (subst window_unfold'[OF exB_idxx1 exB_bounds1, where N = 7])
     (simp_all add: exB_slices1 linear_spline_def broadcast_def)

lemma exB_idxx2: "idxx 2 (Finite (3 / 2)) (Finite 1) 2 = Inr [Finite 2, Finite (7 / 2)]"
  by (simp add: idxx_def py_float_def upts rd)

lemma exB_bounds2: "start [Finite 2, Finite (7 / 2)] = Inr 2" "endp [Finite 2, Finite (7 / 2)] = Inr 6"
  by (simp_all add: start_def endp_def)

lemma exB_slices2: "py_slice (arange 7) 2 7 = [2, 3, 4, 5, 6]" "py_slice ([1, 4, 9, 16, 25, 36, 49] :: real list) 2 7 = [9, 16, 25, 36, 49]"
  by code_simp+

lemma exB_window2: "window linear_spline [1, 4, 9, 16, 25, 36, 49] 2 (Finite (3 / 2)) (Finite 1) 2 = Inr (Some [9, (41 / 2)])"
  by (subst window_unfold'[OF exB_idxx2 exB_bounds2, where N = 7])
     (simp_all add: exB_slices2 linear_spline_def broadcast_def)

lemma exB_idxx3: "idxx 2 (Finite (3 / 2)) (Finite 1) 3 = Inr [Finite 3, Finite (9 / 2)]"
  by (simp add: idxx_def py_float_def upts rd)

lemma exB_bounds3: "start [Finite 3, Finite (9 / 2)] = Inr 3" "endp [Finite 3, Finite (9 / 2)] = Inr 7"
  by (simp_all add: start_def endp_def)

lemma exB_window3: "window linear_spline [1, 4, 9, 16, 25, 36, 49] 2 (Finite (3 / 2)) (Finite 1) 3 = Inr None"
  by (subst window_unfold'[OF exB_idxx3 exB_bounds3, where N = 7]) simp_all

lemma exB_result: "getSlidingWindow linear_spline unlimited [1, 4, 9, 16, 25, 36, 49] 2 (Finite (3 / 2)) (Finite 1) =
    \<lparr>printed = [], result = Inr [[1, (13 / 2)], [4, (25 / 2)], [9, (41 / 2)]]\<rparr>"
proof -
  have rows: "window linear_spline [1, 4, 9, 16, 25, 36, 49] 2 (Finite (3 / 2)) (Finite 1) i = Inr (Some ([[1, (13 / 2)], [4, (25 / 2)], [9, (41 / 2)]] ! i))" if lt: "i < 3" for i
  proof -
    consider "i = 0" | "i = 1" | "i = 2" using lt by linarith
    then show ?thesis
    proof cases
      case 1
      then show ?thesis using exB_window0 by simp
    next
      case 2
      then show ?thesis using exB_window1 by simp
    next
      case 3
      then show ?thesis using exB_window2 by simp
    qed
  qed
  have stop: "window linear_spline [1, 4, 9, 16, 25, 36, 49] 2 (Finite (3 / 2)) (Finite 1) 3 = Inr None" by (rule exB_window3)
  have "getSlidingWindow linear_spline unlimited [1, 4, 9, 16, 25, 36, 49] 2 (Finite (3 / 2)) (Finite 1) =
    \<lparr>printed = [], result = Inr (map ((!) [[1, (13 / 2)], [4, (25 / 2)], [9, (41 / 2)]]) [0..<3])\<rparr>"
    using exB_count rows stop by (intro getSlidingWindow_eval[where M = 4]) (simp_all add: np_zeros_def index_range_def unlimited_def)
  then show ?thesis by (simp add: upts)
qed

lemma exC_count: "NWindows [1, 2, 3, 4] 1 (Finite 0) (Finite 1) = Inr 4"
  by (simp add: NWindows_def py_float_def py_truediv_def dsub_def rd)

lemma exC_idxx0: "idxx 1 (Finite 0) (Finite 1) 0 = Inr [Finite 0]"
  by (simp add: idxx_def py_float_def upts rd)

lemma exC_bounds0: "start [Finite 0] = Inr 0" "endp [Finite 0] = Inr 2"
  by (simp_all add: start_def endp_def)

lemma exC_slices0: "py_slice (arange 4) 0 3 = [0, 1, 2]" "py_slice ([1, 2, 3, 4] :: real list) 0 3 = [1, 2, 3]"
  by code_simp+

lemma exC_window0: "window linear_spline [1, 2, 3, 4] 1 (Finite 0) (Finite 1) 0 = Inr (Some [1])"
  by (subst window_unfold'[OF exC_idxx0 exC_bounds0, where N = 4])
     (simp_all add: exC_slices0 linear_spline_def broadcast_def)

lemma exC_idxx1: "idxx 1 (Finite 0) (Finite 1) 1 = Inr [Finite 1]"
  by (simp add: idxx_def py_float_def upts rd)

lemma exC_bounds1: "start [Finite 1] = Inr 1" "endp [Finite 1] = Inr 3"
  by (simp_all add: start_def endp_def)

lemma exC_slices1: "py_slice (arange 4) 1 4 = [1, 2, 3]" "py_slice ([1, 2, 3, 4] :: real list) 1 4 = [2, 3, 4]"
  by code_simp+

lemma exC_window1: "window linear_spline [1, 2, 3, 4] 1 (Finite 0) (Finite 1) 1 = Inr (Some [2])"
  by (subst window_unfold'[OF exC_idxx1 exC_bounds1, where N = 4])
     (simp_all add: exC_slices1 linear_spline_def broadcast_def)

lemma exC_idxx2: "idxx 1 (Finite 0) (Finite 1) 2 = Inr [Finite 2]"
  by (simp add: idxx_def py_float_def upts rd)

lemma exC_bounds2: "start [Finite 2] = Inr 2" "endp [Finite 2] = Inr 4"
  by (simp_all add: start_def endp_def)

lemma exC_window2: "window linear_spline [1, 2, 3, 4] 1 (Finite 0) (Finite 1) 2 = Inr None"
  by (subst window_unfold'[OF exC_idxx2 exC_bounds2, where N = 4]) simp_all

lemma exC_result: "getSlidingWindow linear_spline unlimited [1, 2, 3, 4] 1 (Finite 0) (Finite 1) =
    \<lparr>printed = [], result = Inr [[1], [2]]\<rparr>"
proof -
  have rows: "window linear_spline [1, 2, 3, 4] 1 (Finite 0) (Finite 1) i = Inr (Some ([[1], [2]] ! i))" if lt: "i < 2" for i
  proof -
    consider "i = 0" | "i = 1" using lt by linarith
    then show ?thesis
    proof cases
      case 1
      then show ?thesis using exC_window0 by simp
    next
      case 2
      then show ?thesis using exC_window1 by simp
    qed
  qed
  have stop: "window linear_spline [1, 2, 3, 4] 1 (Finite 0) (Finite 1) 2 = Inr None" by (rule exC_window2)
  have "getSlidingWindow linear_spline unlimited [1, 2, 3, 4] 1 (Finite 0) (Finite 1) =
    \<lparr>printed = [], result = Inr (map ((!) [[1], [2]]) [0..<2])\<rparr>"
    using exC_count rows stop by (intro getSlidingWindow_eval[where M = 4]) (simp_all add: np_zeros_def index_range_def unlimited_def)
  then show ?thesis by (simp add: upts)
qed

lemma exD_count: "NWindows [0, 1, 2, 3, 4, 5, 6, 7, 8] 3 (round_double (11 / 10)) (round_double (19 / 10)) = Inr 2"
  by (simp add: NWindows_def py_float_def py_truediv_def dsub_def rd)

lemma exD_idxx0: "idxx 3 (round_double (11 / 10)) (round_double (19 / 10)) 0 = Inr [Finite 0, Finite (2476979795053773 / 2251799813685248), Finite (2476979795053773 / 1125899906842624)]"
  by (simp add: idxx_def py_float_def upts rd)

lemma exD_bounds0: "start [Finite 0, Finite (2476979795053773 / 2251799813685248), Finite (2476979795053773 / 1125899906842624)] = Inr 0" "endp [Finite 0, Finite (2476979795053773 / 2251799813685248), Finite (2476979795053773 / 1125899906842624)] = Inr 5"
  by (simp_all add: start_def endp_def)

lemma exD_slices0: "py_slice (arange 9) 0 6 = [0, 1, 2, 3, 4, 5]" "py_slice ([0, 1, 2, 3, 4, 5, 6, 7, 8] :: real list) 0 6 = [0, 1, 2, 3, 4, 5]"
  by code_simp+

lemma exD_window0: "window linear_spline [0, 1, 2, 3, 4, 5, 6, 7, 8] 3 (round_double (11 / 10)) (round_double (19 / 10)) 0 = Inr (Some [0, (2476979795053773 / 2251799813685248), (2476979795053773 / 1125899906842624)])"
  by (subst window_unfold'[OF exD_idxx0 exD_bounds0, where N = 9])
     (simp_all add: exD_slices0 linear_spline_def broadcast_def)

lemma exD_idxx1: "idxx 3 (round_double (11 / 10)) (round_double (19 / 10)) 1 = Inr [Finite (4278419646001971 / 2251799813685248), Finite 3, Finite (2308094809027379 / 562949953421312)]"
  by (simp add: idxx_def py_float_def upts rd)

lemma exD_bounds1: "start [Finite (4278419646001971 / 2251799813685248), Finite 3, Finite (2308094809027379 / 562949953421312)] = Inr 1" "endp [Finite (4278419646001971 / 2251799813685248), Finite 3, Finite (2308094809027379 / 562949953421312)] = Inr 7"
  by (simp_all add: start_def endp_def)

lemma exD_slices1: "py_slice (arange 9) 1 8 = [1, 2, 3, 4, 5, 6, 7]" "py_slice ([0, 1, 2, 3, 4, 5, 6, 7, 8] :: real list) 1 8 = [1, 2, 3, 4, 5, 6, 7]"
  by code_simp+

lemma exD_window1: "window linear_spline [0, 1, 2, 3, 4, 5, 6, 7, 8] 3 (round_double (11 / 10)) (round_double (19 / 10)) 1 = Inr (Some [(4278419646001971 / 2251799813685248), 3, (2308094809027379 / 562949953421312)])"
  by (subst window_unfold'[OF exD_idxx1 exD_bounds1, where N = 9])
     (simp_all add: exD_slices1 linear_spline_def broadcast_def)

lemma exD_result: "getSlidingWindow linear_spline unlimited [0, 1, 2, 3, 4, 5, 6, 7, 8] 3 (round_double (11 / 10)) (round_double (19 / 10)) =
    \<lparr>printed = [], result = Inr [[0, (2476979795053773 / 2251799813685248), (2476979795053773 / 1125899906842624)], [(4278419646001971 / 2251799813685248), 3, (2308094809027379 / 562949953421312)]]\<rparr>"
proof -
  have rows: "window linear_spline [0, 1, 2, 3, 4, 5, 6, 7, 8] 3 (round_double (11 / 10)) (round_double (19 / 10)) i = Inr (Some ([[0, (2476979795053773 / 2251799813685248), (2476979795053773 / 1125899906842624)], [(4278419646001971 / 2251799813685248), 3, (2308094809027379 / 562949953421312)]] ! i))" if lt: "i < 2" for i
  proof -
    consider "i = 0" | "i = 1" using lt by linarith
    then show ?thesis
    proof cases
      case 1
      then show ?thesis using exD_window0 by simp
    next
      case 2
      then show ?thesis using exD_window1 by simp
    qed
  qed
  have "getSlidingWindow linear_spline unlimited [0, 1, 2, 3, 4, 5, 6, 7, 8] 3 (round_double (11 / 10)) (round_double (19 / 10)) =
    \<lparr>printed = [], result = Inr (map ((!) [[0, (2476979795053773 / 2251799813685248), (2476979795053773 / 1125899906842624)], [(4278419646001971 / 2251799813685248), 3, (2308094809027379 / 562949953421312)]]) [0..<2])\<rparr>"
    using exD_count rows by (intro getSlidingWindow_eval[where M = 2]) (simp_all add: np_zeros_def index_range_def unlimited_def)
  then show ?thesis by (simp add: upts)
qed

lemma exD_idxx2: "idxx 3 (round_double (11 / 10)) (round_double (19 / 10)) 2 = Inr [Finite (4278419646001971 / 1125899906842624), Finite (2758454771764429 / 562949953421312), Finite 6]"
  by (simp add: idxx_def py_float_def upts rd)

lemma exD_bounds2: "start [Finite (4278419646001971 / 1125899906842624), Finite (2758454771764429 / 562949953421312), Finite 6] = Inr 3" "endp [Finite (4278419646001971 / 1125899906842624), Finite (2758454771764429 / 562949953421312), Finite 6] = Inr 8"
  by (simp_all add: start_def endp_def)

lemma exN_count: "NWindows [3, 1, 4, 1, 5] 1 (round_double (1 / 10)) (round_double (49 / 10)) = Inr 1"
  by (simp add: NWindows_def py_float_def py_truediv_def dsub_def rd)

lemma exN_idxx0: "idxx 1 (round_double (1 / 10)) (round_double (49 / 10)) 0 = Inr [Finite 0]"
  by (simp add: idxx_def py_float_def upts rd)

lemma exN_bounds0: "start [Finite 0] = Inr 0" "endp [Finite 0] = Inr 2"
  by (simp_all add: start_def endp_def)

lemma exN_slices0: "py_slice (arange 5) 0 3 = [0, 1, 2]" "py_slice ([3, 1, 4, 1, 5] :: real list) 0 3 = [3, 1, 4]"
  by code_simp+

lemma exN_window0: "window linear_spline [3, 1, 4, 1, 5] 1 (round_double (1 / 10)) (round_double (49 / 10)) 0 = Inr (Some [3])"
  by (subst window_unfold'[OF exN_idxx0 exN_bounds0, where N = 5])
     (simp_all add: exN_slices0 linear_spline_def broadcast_def)

lemma exN_result: "getSlidingWindow linear_spline unlimited [3, 1, 4, 1, 5] 1 (round_double (1 / 10)) (round_double (49 / 10)) =
    \<lparr>printed = [], result = Inr [[3]]\<rparr>"
proof -
  have rows: "window linear_spline [3, 1, 4, 1, 5] 1 (round_double (1 / 10)) (round_double (49 / 10)) i = Inr (Some ([[3]] ! i))" if lt: "i < 1" for i
  proof -
    consider "i = 0" using lt by linarith
    then show ?thesis
    proof cases
      case 1
      then show ?thesis using exN_window0 by simp
    qed
  qed
  have "getSlidingWindow linear_spline unlimited [3, 1, 4, 1, 5] 1 (round_double (1 / 10)) (round_double (49 / 10)) =
    \<lparr>printed = [], result = Inr (map ((!) [[3]]) [0..<1])\<rparr>"
    using exN_count rows by (intro getSlidingWindow_eval[where M = 1]) (simp_all add: np_zeros_def index_range_def unlimited_def)
  then show ?thesis by (simp add: upts)
qed



lemma exG_count: "NWindows [5] 1 (Finite 3) (Finite 1) = Inr (- 2)"
  by (simp add: NWindows_def py_float_def py_truediv_def dsub_def rd)


lemma exI_count: "NWindows [1, 2, 3] (- 1) (Finite 1) (Finite 1) = Inr 4"
  by (simp add: NWindows_def py_float_def py_truediv_def dsub_def rd)


lemma zeros_4_2: "np_zeros unlimited 4 2 = Inr [[0, 0], [0, 0], [0, 0], [0, 0]]"
  by (simp add: np_zeros_def index_range_def unlimited_def zeros_def eval_nat_numeral)

lemma exN_tau: "round_double (1 / 10) = Finite (3602879701896397 / 36028797018963968)"
  by (simp add: rd)

lemma exN_dT: "round_double (49 / 10) = Finite (2758454771764429 / 562949953421312)"
  by (simp add: rd)

lemma exD_tau: "round_double (11 / 10) = Finite (2476979795053773 / 2251799813685248)"
  by (simp add: rd)

lemma exD_dT: "round_double (19 / 10) = Finite (4278419646001971 / 2251799813685248)"
  by (simp add: rd)

subsection \<open>Runs where rounding decides\<close>

lemma exR_tau: "round_double (12 / 10) = Finite (5404319552844595 / 4503599627370496)"
  by (simp add: rd)

lemma exR_dT: "round_double (36 / 10) = Finite (8106479329266893 / 2251799813685248)"
  by (simp add: rd)

lemma exR_count:
  "NWindows [0, 0, 0, 0, 0, 0, 0, 0, 0, 0, 0, 0] 7 (round_double (12 / 10)) (round_double (36 / 10)) = Inr 0"
  by (simp add: NWindows_def py_float_def py_truediv_def dsub_def rd)

lemma round_double_huge: "round_double huge = PosInf"
proof -
  have h: "huge = 2 powi 1024" by (simp only: huge_def power_int_numeral)
  have "(2::real) powi 1024 < 2 powi (1024 + 1)" by (intro power_int_strict_increasing) simp_all
  then have "ilog2 \<bar>huge\<bar> = 1024" unfolding h by (intro ilog2_unique) simp_all
  then have i: "ilog2 huge = 1024" unfolding h by simp
  then have b: "bexp huge = 1024" unfolding h by (simp add: bexp_def)
  have "0 < huge" unfolding h by simp
  then have "2 powi bexp huge \<le> round_real huge" using i by (intro round_real_ge_pow) simp_all
  then have "huge \<le> round_real huge" unfolding b using h by simp
  then show ?thesis by (simp add: round_double_def Let_def)
qed

lemma exS_count: "NWindows [1, 2, 3] 2 (Finite (huge / 2)) (Finite 1) = Inl OverflowError"
  by (simp add: NWindows_def py_float_def py_truediv_def dsub_def rd round_double_huge)

lemma exS_result:
  "getSlidingWindow sp np [1, 2, 3] 2 (Finite (huge / 2)) (Finite 1) =
     \<lparr>printed = [], result = Inl OverflowError\<rparr>"
  by (simp add: getSlidingWindow_def exS_count)

lemma exT_idxx: "idxx 2 (Finite (1 / 2 ^ 53)) (Finite 1) 1 = Inr [Finite 1, Finite 1]"
  by (simp add: idxx_def py_float_def upts rd round_double_binade[where e = "- 53"])

section \<open>The claims of the specification\<close>

subsection \<open>C1: a window larger than the signal\<close>




subsection \<open>C2: a row is the interpolant of its window\<close>



subsection \<open>C3: the number of rows\<close>

text \<open>
  C3 (as amended). Whenever the call returns a matrix, with \<open>M\<close> the count
  \<open>int(np.floor((N-dim*Tau)/dT))\<close> as the function computes it, the number of rows is at least
  \<open>0\<close>; it is at most \<open>M\<close> when \<open>M > 0\<close>, and it is exactly \<open>3\<close> (the placeholder) when
  \<open>M \<le> 0\<close>.
\<close>

theorem row_count_bound:
  assumes "NWindows x dim' Tau dT = Inr M"
    and "result (getSlidingWindow sp al x dim' Tau dT) = Inr X"
  shows "0 \<le> int (length X) \<and>
         (if M \<le> 0 then length X = 3 else int (length X) \<le> M)"
proof (cases "M \<le> 0")
  case True
  then have "np_zeros al 3 dim' = Inr X" using assms by (simp add: getSlidingWindow_def)
  then show ?thesis using True by (auto simp: np_zeros_Inr)
next
  case False
  then obtain n where "n \<le> nat M" "length X = n"
    using returned_windows[OF assms(1) _ assms(2)] by auto
  then show ?thesis using False by simp
qed

text \<open>Six samples, \<open>dim = 2\<close>, \<open>Tau = 1\<close>, \<open>dT = 1\<close>: four candidate windows, three rows.\<close>

theorem row_count_bound_witness:
  "NWindows [2, 7, 1, 8, 2, 8] 2 (Finite 1) (Finite 1) = Inr 4 \<and>
   result (getSlidingWindow linear_spline unlimited [2, 7, 1, 8, 2, 8] 2 (Finite 1) (Finite 1)) =
     Inr [[2, 7], [7, 1], [1, 8]] \<and>
   0 \<le> int (length [[2, 7], [7, 1], [1, 8 :: real]]) \<and>
   int (length [[2, 7], [7, 1], [1, 8 :: real]]) \<le> 4"
proof -
  have r: "result (getSlidingWindow linear_spline unlimited [2, 7, 1, 8, 2, 8] 2 (Finite 1) (Finite 1)) =
     Inr [[2, 7], [7, 1], [1, 8]]"
    by (simp add: exA_result)
  from row_count_bound[OF exA_count r]
  have "0 \<le> int (length [[2, 7], [7, 1], [1, 8 :: real]]) \<and>
        int (length [[2, 7], [7, 1], [1, 8 :: real]]) \<le> 4"
    by (simp del: length_Cons list.size)
  then show ?thesis using exA_count r by blast
qed

text \<open>
  C3 as stated bounds the rows by \<open>floor((N - dim*Tau)/dT)\<close> for every parameter set. With one
  sample, \<open>dim = 1\<close>, \<open>Tau = 3\<close>, \<open>dT = 1\<close> that number is \<open>-2\<close> and the returned matrix has
  three rows. With five samples, \<open>dim = 1\<close> and the doubles \<open>Tau = 0.1\<close>, \<open>dT = 4.9\<close> that number
  is \<open>0\<close>, the function computes the quotient as the double \<open>1.0\<close>, and the returned matrix has
  one row.
\<close>

theorem rows_exceed_the_floor:
  "\<lfloor>(real (length [5 :: real]) - real_of_int 1 * 3) / 1\<rfloor> = (- 2 :: int) \<and>
   result (getSlidingWindow linear_spline unlimited [5] 1 (Finite 3) (Finite 1)) = Inr [[0], [0], [0]] \<and>
   \<not> int (length [[0], [0], [0 :: real]]) \<le> - 2 \<and>
   round_double (1 / 10) = Finite (3602879701896397 / 36028797018963968) \<and>
   round_double (49 / 10) = Finite (2758454771764429 / 562949953421312) \<and>
   \<lfloor>(real (length [3, 1, 4, 1, 5 :: real]) - real_of_int 1 * (3602879701896397 / 36028797018963968))
      / (2758454771764429 / 562949953421312)\<rfloor> = (0 :: int) \<and>
   result (getSlidingWindow linear_spline unlimited [3, 1, 4, 1, 5] 1
     (round_double (1 / 10)) (round_double (49 / 10))) = Inr [[3]] \<and>
   \<not> int (length [[3 :: real]]) \<le> 0"
proof -
  have a: "\<lfloor>(real (length [5 :: real]) - real_of_int 1 * 3) / 1\<rfloor> = (- 2 :: int)"
    "\<not> int (length [[0], [0], [0 :: real]]) \<le> - 2" "\<not> int (length [[3 :: real]]) \<le> 0"
    by simp_all
  have b: "result (getSlidingWindow linear_spline unlimited [5] 1 (Finite 3) (Finite 1)) =
      Inr [[0], [0], [0]]"
    by (simp add: getSlidingWindow_def exG_count np_zeros_def index_range_def unlimited_def
        zeros_def eval_nat_numeral)
  have c: "\<lfloor>(real (length [3, 1, 4, 1, 5 :: real]) - real_of_int 1 * (3602879701896397 / 36028797018963968))
      / (2758454771764429 / 562949953421312)\<rfloor> = (0 :: int)"
    by simp
  have d: "result (getSlidingWindow linear_spline unlimited [3, 1, 4, 1, 5] 1
     (round_double (1 / 10)) (round_double (49 / 10))) = Inr [[3]]"
    by (simp add: exN_result)
  show ?thesis using a b c d exN_tau exN_dT by blast
qed

subsection \<open>C4: truncation\<close>

text \<open>
  C4. Let the count \<open>M\<close> be computed, let the array of \<open>M\<close> rows be built, and let the loop
  reach window \<open>i < M\<close>, every earlier window \<open>j\<close> having got its row \<open>R j\<close>. If the bounds of
  window \<open>i\<close> are computed and \<open>end \<ge> N\<close>, the call returns normally, prints nothing, and the
  returned matrix consists of exactly the \<open>i\<close> rows \<open>R 0, ..., R (i-1)\<close>.
\<close>

theorem truncation_returns_computed_rows:
  assumes "NWindows x dim' Tau dT = Inr M" and "int i < M"
    and "np_zeros al M dim' = Inr X0"
    and "\<forall>j<i. window sp x dim' Tau dT j = Inr (Some (R j))"
    and "idxx dim' Tau dT i = Inr p" and "start p = Inr s" and "endp p = Inr e"
    and "int (length x) \<le> e"
  shows "getSlidingWindow sp al x dim' Tau dT = \<lparr>printed = [], result = Inr (map R [0..<i])\<rparr>"
proof -
  have "window sp x dim' Tau dT i = Inr None"
    using assms(5,6,7,8) by (auto simp: window_None_iff)
  moreover have "0 < M" "i \<le> nat M" using assms(2) by simp_all
  ultimately show ?thesis using assms(1,3,4) by (intro getSlidingWindow_eval[where ?X0.0 = X0]) simp_all
qed

text \<open>Six samples, \<open>dim = 2\<close>, \<open>Tau = 1\<close>, \<open>dT = 1\<close>: four candidates, and window \<open>3\<close> has
  \<open>end = 6 = N\<close>, so three rows are returned.\<close>

theorem truncation_returns_computed_rows_witness:
  "NWindows [2, 7, 1, 8, 2, 8] 2 (Finite 1) (Finite 1) = Inr 4 \<and> int 3 < 4 \<and>
   np_zeros unlimited 4 2 = Inr [[0, 0], [0, 0], [0, 0], [0, 0]] \<and>
   window linear_spline [2, 7, 1, 8, 2, 8] 2 (Finite 1) (Finite 1) 0 = Inr (Some [2, 7]) \<and>
   window linear_spline [2, 7, 1, 8, 2, 8] 2 (Finite 1) (Finite 1) 1 = Inr (Some [7, 1]) \<and>
   window linear_spline [2, 7, 1, 8, 2, 8] 2 (Finite 1) (Finite 1) 2 = Inr (Some [1, 8]) \<and>
   idxx 2 (Finite 1) (Finite 1) 3 = Inr [Finite 3, Finite 4] \<and>
   start [Finite 3, Finite 4] = Inr 3 \<and> endp [Finite 3, Finite 4] = Inr 6 \<and>
   int (length [2, 7, 1, 8, 2, 8 :: real]) \<le> 6 \<and>
   getSlidingWindow linear_spline unlimited [2, 7, 1, 8, 2, 8] 2 (Finite 1) (Finite 1) =
     \<lparr>printed = [], result = Inr [[2, 7], [7, 1], [1, 8]]\<rparr>"
proof -
  let ?R = "(!) [[2, 7], [7, 1], [1, 8 :: real]]"
  have h: "int 3 < 4" "int (length [2, 7, 1, 8, 2, 8 :: real]) \<le> 6" by simp_all
  have rows: "\<forall>j<3. window linear_spline [2, 7, 1, 8, 2, 8] 2 (Finite 1) (Finite 1) j = Inr (Some (?R j))"
  proof (intro allI impI)
    fix j :: nat
    assume lt: "j < 3"
    consider "j = 0" | "j = 1" | "j = 2" using lt by linarith
    then show "window linear_spline [2, 7, 1, 8, 2, 8] 2 (Finite 1) (Finite 1) j = Inr (Some (?R j))"
    proof cases
      case 1
      then show ?thesis using exA_window0 by simp
    next
      case 2
      then show ?thesis using exA_window1 by simp
    next
      case 3
      then show ?thesis using exA_window2 by simp
    qed
  qed
  from truncation_returns_computed_rows[OF exA_count h(1) zeros_4_2 rows exA_idxx3 exA_bounds3 h(2)]
  have "getSlidingWindow linear_spline unlimited [2, 7, 1, 8, 2, 8] 2 (Finite 1) (Finite 1) =
     \<lparr>printed = [], result = Inr [[2, 7], [7, 1], [1, 8]]\<rparr>"
    by (simp add: upts)
  then show ?thesis
    using exA_count h zeros_4_2 exA_window0 exA_window1 exA_window2 exA_idxx3 exA_bounds3 by blast
qed

subsection \<open>C5: parameters are not validated\<close>

text \<open>
  C5 (as amended). \<open>getSlidingWindow\<close> checks none of its parameters, and no outcome of a
  call is a report of invalid parameters. With \<open>dT = 0\<close> (and \<open>|dim|\<close>, \<open>N\<close> at most \<open>2^53\<close>) the
  call raises \<open>ZeroDivisionError\<close> at the division of its first statement and prints nothing.
  With \<open>dim < 0\<close> (and \<open>dim\<close>, the computed count within the index type) the call raises
  \<open>ValueError\<close> at \<open>np.zeros\<close>.
\<close>

theorem invalid_parameters_fail_late:
  "(\<bar>dim'\<bar> \<le> 2 ^ 53 \<and> length x \<le> 2 ^ 53 \<longrightarrow>
      getSlidingWindow sp al x dim' Tau (Finite 0) = \<lparr>printed = [], result = Inl ZeroDivisionError\<rparr>) \<and>
   (dim' < 0 \<and> index_range dim' \<and> (\<exists>M. NWindows x dim' Tau dT = Inr M \<and> M < 2 ^ 63) \<longrightarrow>
      result (getSlidingWindow sp al x dim' Tau dT) = Inl ValueError)"
proof (intro conjI impI)
  assume a: "\<bar>dim'\<bar> \<le> 2 ^ 53 \<and> length x \<le> 2 ^ 53"
  then have fd: "py_float dim' = Inr (Finite (of_int dim'))" by (intro py_float_small) simp
  have "int (length x) \<le> 2 ^ 53" using a by (metis of_nat_le_iff of_nat_numeral of_nat_power)
  then have fn: "py_float (int (length x)) = Inr (Finite (real (length x)))"
    using py_float_small[of "int (length x)"] by simp
  have "NWindows x dim' Tau (Finite 0) = Inl ZeroDivisionError"
    by (simp add: NWindows_def fd fn py_truediv_def)
  then show "getSlidingWindow sp al x dim' Tau (Finite 0) = \<lparr>printed = [], result = Inl ZeroDivisionError\<rparr>"
    by (simp add: getSlidingWindow_def)
next
  assume "dim' < 0 \<and> index_range dim' \<and> (\<exists>M. NWindows x dim' Tau dT = Inr M \<and> M < 2 ^ 63)"
  then obtain M where "dim' < 0" "index_range dim'" "NWindows x dim' Tau dT = Inr M" "M < 2 ^ 63"
    by blast
  then show "result (getSlidingWindow sp al x dim' Tau dT) = Inl ValueError"
    by (simp add: getSlidingWindow_def np_zeros_def index_range_def)
qed

text \<open>The theorem at \<open>dT = 0\<close> with \<open>dim = 1\<close>, and at \<open>dim = -1\<close> with \<open>dT = 1\<close>, on three samples.\<close>

theorem invalid_parameters_fail_late_witness:
  "\<bar>1 :: int\<bar> \<le> 2 ^ 53 \<and> length [1, 2, 3 :: real] \<le> 2 ^ 53 \<and>
   getSlidingWindow linear_spline unlimited [1, 2, 3] 1 (Finite 1) (Finite 0) =
     \<lparr>printed = [], result = Inl ZeroDivisionError\<rparr> \<and>
   (- 1 :: int) < 0 \<and> index_range (- 1) \<and>
   NWindows [1, 2, 3] (- 1) (Finite 1) (Finite 1) = Inr 4 \<and> (4::int) < 2 ^ 63 \<and>
   result (getSlidingWindow linear_spline unlimited [1, 2, 3] (- 1) (Finite 1) (Finite 1)) =
     Inl ValueError"
proof -
  have h: "\<bar>1 :: int\<bar> \<le> 2 ^ 53" "length [1, 2, 3 :: real] \<le> 2 ^ 53"
    "(- 1 :: int) < 0" "index_range (- 1)" "(4::int) < 2 ^ 63"
    by (simp_all add: index_range_def)
  have a: "getSlidingWindow linear_spline unlimited [1, 2, 3] 1 (Finite 1) (Finite 0) =
     \<lparr>printed = [], result = Inl ZeroDivisionError\<rparr>"
    using invalid_parameters_fail_late[of 1 "[1, 2, 3]" linear_spline unlimited "Finite 1"] h(1,2)
    by blast
  have b: "result (getSlidingWindow linear_spline unlimited [1, 2, 3] (- 1) (Finite 1) (Finite 1)) =
     Inl ValueError"
    using invalid_parameters_fail_late[of "- 1" "[1, 2, 3]" linear_spline unlimited "Finite 1" "Finite 1"]
      h(3,4,5) exI_count
    by blast
  show ?thesis using h a b exI_count by blast
qed

text \<open>
  C5 as stated asks for a failure before any window is computed when \<open>Tau \<le> 0\<close>. With four
  samples, \<open>dim = 1\<close>, \<open>Tau = 0\<close>, \<open>dT = 1\<close> the call computes two windows and returns them.
\<close>

theorem zero_tau_is_embedded:
  "(0::real) \<le> 0 \<and>
   getSlidingWindow linear_spline unlimited [1, 2, 3, 4] 1 (Finite 0) (Finite 1) =
     \<lparr>printed = [], result = Inr [[1], [2]]\<rparr>"
  using exC_result by simp

subsection \<open>C7: positions of an emitted row\<close>

text \<open>
  C7 (as amended). Let \<open>dT\<close> and \<open>Tau\<close> be finite and positive, the computed count positive,
  and let the call return a matrix. For every row \<open>i\<close> of the matrix the \<open>dim\<close> positions of
  window \<open>i\<close> are finite and satisfy \<open>0 \<le> p_j \<le> N - 3\<close>, so they lie in \<open>[0, N-1]\<close>, the left
  end included; and the row has \<open>dim\<close> entries.
\<close>

theorem emitted_positions_within_signal:
  assumes "0 < d" and "0 < t"
    and "NWindows x dim' (Finite t) (Finite d) = Inr M" and "0 < M"
    and "result (getSlidingWindow sp al x dim' (Finite t) (Finite d)) = Inr X" and "i < length X"
  shows "\<exists>vs. idxx dim' (Finite t) (Finite d) i = Inr (map Finite vs) \<and> length vs = nat dim' \<and>
              (\<forall>v \<in> set vs. 0 \<le> v \<and> v \<le> real (length x) - 3) \<and>
              window sp x dim' (Finite t) (Finite d) i = Inr (Some (X ! i)) \<and>
              length (X ! i) = nat dim'"
proof -
  obtain n where "length X = n" "\<forall>i<n. window sp x dim' (Finite t) (Finite d) i = Inr (Some (X ! i))"
    using returned_windows[OF assms(3,4,5)] by blast
  then have w: "window sp x dim' (Finite t) (Finite d) i = Inr (Some (X ! i))" using assms(6) by simp
  then obtain p e v where p: "idxx dim' (Finite t) (Finite d) i = Inr p" and e: "endp p = Inr e"
    and lt: "e < int (length x)" and b: "broadcast (nat dim') v = Inr (X ! i)"
    by (auto simp: window_Some_iff)
  obtain vs where vs: "p = map Finite vs" "length vs = nat dim'" "vs \<noteq> []"
      "\<forall>v \<in> set vs. 0 \<le> v \<and> v \<le> last vs" "e = \<lceil>last vs\<rceil> + 2"
    using window_positions[OF assms(1,2) p e] by blast
  have "\<lceil>last vs\<rceil> \<le> int (length x) - 3" using lt vs(5) by simp
  then have "real_of_int \<lceil>last vs\<rceil> \<le> real_of_int (int (length x) - 3)" by (simp only: of_int_le_iff)
  moreover have "last vs \<le> real_of_int \<lceil>last vs\<rceil>" by (rule le_of_int_ceiling)
  ultimately have "last vs \<le> real_of_int (int (length x) - 3)" by linarith
  then have "last vs \<le> real (length x) - 3" by simp
  then have "\<forall>v \<in> set vs. 0 \<le> v \<and> v \<le> real (length x) - 3" using vs(4) by fastforce
  moreover have "length (X ! i) = nat dim'" using b by (rule broadcast_length)
  ultimately show ?thesis using p vs(1,2) w by blast
qed

text \<open>Seven samples, \<open>dim = 2\<close>, \<open>Tau = 3/2\<close>, \<open>dT = 1\<close>, row \<open>2\<close>: positions \<open>2\<close> and \<open>7/2\<close>.\<close>

theorem emitted_positions_within_signal_witness:
  "(0::real) < 1 \<and> (0::real) < 3 / 2 \<and>
   NWindows [1, 4, 9, 16, 25, 36, 49] 2 (Finite (3 / 2)) (Finite 1) = Inr 4 \<and> (0::int) < 4 \<and>
   result (getSlidingWindow linear_spline unlimited [1, 4, 9, 16, 25, 36, 49] 2 (Finite (3 / 2)) (Finite 1)) =
     Inr [[1, 13 / 2], [4, 25 / 2], [9, 41 / 2]] \<and>
   (2::nat) < length [[1, 13 / 2], [4, 25 / 2], [9, 41 / 2 :: real]] \<and>
   idxx 2 (Finite (3 / 2)) (Finite 1) 2 = Inr [Finite 2, Finite (7 / 2)] \<and>
   (0::real) \<le> 2 \<and> (2::real) \<le> real (length [1, 4, 9, 16, 25, 36, 49 :: real]) - 3 \<and>
   (0::real) \<le> 7 / 2 \<and> (7 / 2 :: real) \<le> real (length [1, 4, 9, 16, 25, 36, 49 :: real]) - 3 \<and>
   window linear_spline [1, 4, 9, 16, 25, 36, 49] 2 (Finite (3 / 2)) (Finite 1) 2 =
     Inr (Some ([[1, 13 / 2], [4, 25 / 2], [9, 41 / 2]] ! 2)) \<and>
   length ([[1, 13 / 2], [4, 25 / 2], [9, 41 / 2 :: real]] ! 2) = nat 2"
proof -
  let ?x = "[1, 4, 9, 16, 25, 36, 49] :: real list"
  let ?X = "[[1, 13 / 2], [4, 25 / 2], [9, 41 / 2]] :: real list list"
  have r: "result (getSlidingWindow linear_spline unlimited ?x 2 (Finite (3 / 2)) (Finite 1)) = Inr ?X"
    by (simp add: exB_result)
  have h: "(0::real) < 1" "(0::real) < 3 / 2" "(0::int) < 4" "(2::nat) < length ?X" by simp_all
  from emitted_positions_within_signal[OF h(1,2) exB_count h(3) r h(4)]
  obtain vs where w: "idxx 2 (Finite (3 / 2)) (Finite 1) 2 = Inr (map Finite vs)"
    "\<forall>v \<in> set vs. 0 \<le> v \<and> v \<le> real (length ?x) - 3"
    "window linear_spline ?x 2 (Finite (3 / 2)) (Finite 1) 2 = Inr (Some (?X ! 2))"
    "length (?X ! 2) = nat 2"
    by blast
  have "map Finite vs = [Finite 2, Finite (7 / 2)]" using w(1) exB_idxx2 by simp
  then have vs: "vs = [2, 7 / 2]" by (auto simp: map_eq_Cons_conv)
  have b: "(0::real) \<le> 2" "(2::real) \<le> real (length ?x) - 3"
    "(0::real) \<le> 7 / 2" "(7 / 2 :: real) \<le> real (length ?x) - 3"
    using w(2) unfolding vs by simp_all
  show ?thesis using h exB_count r exB_idxx2 b w(3,4) by blast
qed

text \<open>
  C7 as stated puts every position strictly inside \<open>[0, N-1]\<close>. Row \<open>0\<close> of the embedding of
  six samples with \<open>dim = 2\<close>, \<open>Tau = 1\<close>, \<open>dT = 1\<close> is emitted, and its first position is \<open>0\<close>.
\<close>

theorem first_position_on_boundary:
  "result (getSlidingWindow linear_spline unlimited [2, 7, 1, 8, 2, 8] 2 (Finite 1) (Finite 1)) =
     Inr [[2, 7], [7, 1], [1, 8]] \<and>
   (0::nat) < length [[2, 7], [7, 1], [1, 8 :: real]] \<and>
   idxx 2 (Finite 1) (Finite 1) 0 = Inr [Finite 0, Finite 1] \<and>
   \<not> strictly_within (length [2, 7, 1, 8, 2, 8 :: real]) (Finite 0)"
  by (simp add: exA_result exA_idxx0 strictly_within_def)

subsection \<open>C8: effects of a call\<close>




subsection \<open>C9: reads of the signal\<close>

text \<open>
  C9. Let \<open>dT\<close> and \<open>Tau\<close> be finite and positive, the computed count positive, and let the
  call return a matrix. For every row \<open>i\<close> of the matrix the bounds of window \<open>i\<close> are
  computed, the signal has at least one sample, \<open>0 \<le> start \<le> end \<le> N - 1\<close>, and the slice
  \<open>x[start:end+1]\<close> read for the row is exactly the samples at the indices
  \<open>start, ..., end\<close>, each of them an index of the signal: no bound of the slice is negative
  or clipped.
\<close>

theorem signal_reads_in_bounds:
  assumes "0 < d" and "0 < t"
    and "NWindows x dim' (Finite t) (Finite d) = Inr M" and "0 < M"
    and "result (getSlidingWindow sp al x dim' (Finite t) (Finite d)) = Inr X" and "i < length X"
  shows "\<exists>p s e. idxx dim' (Finite t) (Finite d) i = Inr p \<and> start p = Inr s \<and> endp p = Inr e \<and>
           1 \<le> length x \<and> 0 \<le> s \<and> s \<le> e \<and> e \<le> int (length x) - 1 \<and>
           py_slice x s (e + 1) = map (\<lambda>k. x ! nat k) [s..e] \<and>
           (\<forall>k \<in> set [s..e]. 0 \<le> k \<and> nat k < length x)"
proof -
  obtain n where "length X = n" "\<forall>i<n. window sp x dim' (Finite t) (Finite d) i = Inr (Some (X ! i))"
    using returned_windows[OF assms(3,4,5)] by blast
  then have "window sp x dim' (Finite t) (Finite d) i = Inr (Some (X ! i))" using assms(6) by simp
  then obtain p s e where p: "idxx dim' (Finite t) (Finite d) i = Inr p" and s: "start p = Inr s"
    and e: "endp p = Inr e" and lt: "e < int (length x)"
    by (auto simp: window_Some_iff)
  obtain vs :: "real list" where vs: "vs \<noteq> []" "\<forall>v \<in> set vs. 0 \<le> v \<and> v \<le> last vs"
      "start p = Inr \<lfloor>hd vs\<rfloor>" "e = \<lceil>last vs\<rceil> + 2"
    using window_positions[OF assms(1,2) p e] by blast
  have hd: "0 \<le> hd vs" "hd vs \<le> last vs" using vs(1,2) by simp_all
  have s0: "s = \<lfloor>hd vs\<rfloor>" using s vs(3) by simp
  have "0 \<le> s" using hd(1) s0 by simp
  moreover have "\<lfloor>hd vs\<rfloor> \<le> \<lceil>last vs\<rceil>" using hd(2) by (meson floor_le_ceiling floor_mono order_trans)
  then have se: "s \<le> e" using s0 vs(4) by simp
  moreover have e1: "e \<le> int (length x) - 1" using lt by simp
  moreover have "py_slice x s (e + 1) = map (\<lambda>k. x ! nat k) [s..e + 1 - 1]"
    using \<open>0 \<le> s\<close> se e1 by (intro py_slice_in_range) simp_all
  then have "py_slice x s (e + 1) = map (\<lambda>k. x ! nat k) [s..e]" by simp
  moreover have "\<forall>k \<in> set [s..e]. 0 \<le> k \<and> nat k < length x" using \<open>0 \<le> s\<close> e1 by auto
  moreover have "1 \<le> length x" using \<open>0 \<le> s\<close> se e1 by linarith
  ultimately show ?thesis using p s e by blast
qed

text \<open>Seven samples, \<open>dim = 2\<close>, \<open>Tau = 3/2\<close>, \<open>dT = 1\<close>, row \<open>1\<close>: \<open>start = 1\<close>, \<open>end = 5\<close>.\<close>

theorem signal_reads_in_bounds_witness:
  "(0::real) < 1 \<and> (0::real) < 3 / 2 \<and>
   NWindows [1, 4, 9, 16, 25, 36, 49] 2 (Finite (3 / 2)) (Finite 1) = Inr 4 \<and> (0::int) < 4 \<and>
   result (getSlidingWindow linear_spline unlimited [1, 4, 9, 16, 25, 36, 49] 2 (Finite (3 / 2)) (Finite 1)) =
     Inr [[1, 13 / 2], [4, 25 / 2], [9, 41 / 2]] \<and>
   (1::nat) < length [[1, 13 / 2], [4, 25 / 2], [9, 41 / 2 :: real]] \<and>
   idxx 2 (Finite (3 / 2)) (Finite 1) 1 = Inr [Finite 1, Finite (5 / 2)] \<and>
   start [Finite 1, Finite (5 / 2)] = Inr 1 \<and> endp [Finite 1, Finite (5 / 2)] = Inr 5 \<and>
   1 \<le> length [1, 4, 9, 16, 25, 36, 49 :: real] \<and> (0::int) \<le> 1 \<and> (1::int) \<le> 5 \<and>
   5 \<le> int (length [1, 4, 9, 16, 25, 36, 49 :: real]) - 1 \<and>
   py_slice [1, 4, 9, 16, 25, 36, 49 :: real] 1 6 = [4, 9, 16, 25, 36]"
proof -
  let ?x = "[1, 4, 9, 16, 25, 36, 49] :: real list"
  let ?X = "[[1, 13 / 2], [4, 25 / 2], [9, 41 / 2]] :: real list list"
  have r: "result (getSlidingWindow linear_spline unlimited ?x 2 (Finite (3 / 2)) (Finite 1)) = Inr ?X"
    by (simp add: exB_result)
  have h: "(0::real) < 1" "(0::real) < 3 / 2" "(0::int) < 4" "(1::nat) < length ?X" by simp_all
  from signal_reads_in_bounds[OF h(1,2) exB_count h(3) r h(4)]
  obtain p s e where w: "idxx 2 (Finite (3 / 2)) (Finite 1) 1 = Inr p" "start p = Inr s"
    "endp p = Inr e" "1 \<le> length ?x" "0 \<le> s" "s \<le> e" "e \<le> int (length ?x) - 1"
    "py_slice ?x s (e + 1) = map (\<lambda>k. ?x ! nat k) [s..e]"
    by blast
  have p: "p = [Finite 1, Finite (5 / 2)]" using w(1) exB_idxx1 by simp
  have s: "s = 1" and e: "e = 5" using w(2,3) exB_bounds1 unfolding p by simp_all
  have u: "[1..5] = [1, 2, 3, 4, 5 :: int]" by code_simp
  have sl: "py_slice ?x 1 6 = [4, 9, 16, 25, 36]" using w(8) unfolding s e u by simp
  show ?thesis using h exB_count r exB_idxx1 exB_bounds1 w(4,5,6,7) sl unfolding s e by blast
qed

subsection \<open>C10: the emitted rows are a prefix of the candidates\<close>

text \<open>
  C10 (as amended). Let \<open>dT\<close> and \<open>Tau\<close> be finite and positive, let \<open>M > 0\<close> be the count
  \<open>int(np.floor((N-dim*Tau)/dT))\<close> as the function computes it in double arithmetic, and let
  the call return a matrix. If a window passes the test \<open>end < N\<close> then so does every earlier
  one; the windows \<open>i < M\<close> that pass it are exactly \<open>0, ..., length X - 1\<close>, and row \<open>i\<close> of
  the matrix is the row computed for window \<open>i\<close>.
\<close>

theorem emitted_rows_are_fitting_windows:
  assumes "0 < d" and "0 < t"
    and "NWindows x dim' (Finite t) (Finite d) = Inr M" and "0 < M"
    and "result (getSlidingWindow sp al x dim' (Finite t) (Finite d)) = Inr X"
  shows "(\<forall>i j. i \<le> j \<and> fits x dim' (Finite t) (Finite d) j \<longrightarrow> fits x dim' (Finite t) (Finite d) i) \<and>
         filter (fits x dim' (Finite t) (Finite d)) [0..<nat M] = [0..<length X] \<and>
         (\<forall>i<length X. window sp x dim' (Finite t) (Finite d) i = Inr (Some (X ! i)))"
proof -
  let ?fits = "fits x dim' (Finite t) (Finite d)"
  obtain n where n: "n \<le> nat M" "length X = n"
      "\<forall>i<n. window sp x dim' (Finite t) (Finite d) i = Inr (Some (X ! i))"
      "n < nat M \<longrightarrow> window sp x dim' (Finite t) (Finite d) n = Inr None"
    using returned_windows[OF assms(3,4,5)] by blast
  have anti: "\<forall>i j. i \<le> j \<and> ?fits j \<longrightarrow> ?fits i"
    using fits_antimono[OF assms(1,2)] by blast
  have "?fits i \<longleftrightarrow> i < n" if "i < nat M" for i
  proof
    assume f: "?fits i"
    show "i < n"
    proof (rule ccontr)
      assume "\<not> i < n"
      then have "n \<le> i" "n < nat M" using that by simp_all
      then have "\<not> ?fits n" using n(4) window_None_not_fits by blast
      then show False using anti f \<open>n \<le> i\<close> by blast
    qed
  next
    assume "i < n"
    then show "?fits i" using n(3) window_Some_fits by blast
  qed
  then have "filter ?fits [0..<nat M] = [0..<n]" using n(1) by (intro filter_upt_prefix) simp_all
  then show ?thesis using anti n(2,3) by simp
qed

text \<open>Six samples, \<open>dim = 2\<close>, \<open>Tau = 1\<close>, \<open>dT = 1\<close>: of four candidates the first three fit.\<close>

theorem emitted_rows_are_fitting_windows_witness:
  "(0::real) < 1 \<and>
   NWindows [2, 7, 1, 8, 2, 8] 2 (Finite 1) (Finite 1) = Inr 4 \<and> (0::int) < 4 \<and>
   result (getSlidingWindow linear_spline unlimited [2, 7, 1, 8, 2, 8] 2 (Finite 1) (Finite 1)) =
     Inr [[2, 7], [7, 1], [1, 8]] \<and>
   filter (fits [2, 7, 1, 8, 2, 8] 2 (Finite 1) (Finite 1)) [0..<nat 4] = [0, 1, 2] \<and>
   window linear_spline [2, 7, 1, 8, 2, 8] 2 (Finite 1) (Finite 1) 2 =
     Inr (Some ([[2, 7], [7, 1], [1, 8]] ! 2))"
proof -
  let ?X = "[[2, 7], [7, 1], [1, 8]] :: real list list"
  have r: "result (getSlidingWindow linear_spline unlimited [2, 7, 1, 8, 2, 8] 2 (Finite 1) (Finite 1)) =
     Inr ?X"
    by (simp add: exA_result)
  have h: "(0::real) < 1" "(0::int) < 4" by simp_all
  note w = emitted_rows_are_fitting_windows[OF h(1) h(1) exA_count h(2) r]
  have l: "[0..<length ?X] = [0, 1, 2]" by code_simp
  have f: "filter (fits [2, 7, 1, 8, 2, 8] 2 (Finite 1) (Finite 1)) [0..<nat 4] = [0, 1, 2]"
    using w unfolding l by blast
  have "(2::nat) < length ?X" by simp
  then have "window linear_spline [2, 7, 1, 8, 2, 8] 2 (Finite 1) (Finite 1) 2 = Inr (Some (?X ! 2))"
    using w by blast
  then show ?thesis using h exA_count r f by blast
qed

text \<open>
  C10 as stated takes \<open>M = floor((N - dim*Tau)/dT)\<close>. With nine samples, \<open>dim = 3\<close> and the
  doubles \<open>Tau = 1.1\<close>, \<open>dT = 1.9\<close> that floor is \<open>3\<close> and window \<open>2\<close> has \<open>end = 8 < N\<close>; the
  function computes the quotient as a double below \<open>3\<close>, visits two windows and returns two
  rows.
\<close>

theorem fitting_window_lost_to_rounding:
  "round_double (11 / 10) = Finite (2476979795053773 / 2251799813685248) \<and>
   round_double (19 / 10) = Finite (4278419646001971 / 2251799813685248) \<and>
   \<lfloor>(real (length [0, 1, 2, 3, 4, 5, 6, 7, 8 :: real])
       - real_of_int 3 * (2476979795053773 / 2251799813685248))
      / (4278419646001971 / 2251799813685248)\<rfloor> = (3 :: int) \<and>
   fits [0, 1, 2, 3, 4, 5, 6, 7, 8] 3 (round_double (11 / 10)) (round_double (19 / 10)) 2 \<and>
   result (getSlidingWindow linear_spline unlimited [0, 1, 2, 3, 4, 5, 6, 7, 8] 3
     (round_double (11 / 10)) (round_double (19 / 10))) =
     Inr [[0, 2476979795053773 / 2251799813685248, 2476979795053773 / 1125899906842624],
          [4278419646001971 / 2251799813685248, 3, 2308094809027379 / 562949953421312]] \<and>
   length [[0, 2476979795053773 / 2251799813685248, 2476979795053773 / 1125899906842624],
          [4278419646001971 / 2251799813685248, 3, 2308094809027379 / 562949953421312 :: real]] = 2"
proof -
  have a: "\<lfloor>(real (length [0, 1, 2, 3, 4, 5, 6, 7, 8 :: real])
       - real_of_int 3 * (2476979795053773 / 2251799813685248))
      / (4278419646001971 / 2251799813685248)\<rfloor> = (3 :: int)"
    by simp
  have b: "fits [0, 1, 2, 3, 4, 5, 6, 7, 8] 3 (round_double (11 / 10)) (round_double (19 / 10)) 2"
    by (simp add: fits_def exD_idxx2 exD_bounds2)
  have r: "result (getSlidingWindow linear_spline unlimited [0, 1, 2, 3, 4, 5, 6, 7, 8] 3
     (round_double (11 / 10)) (round_double (19 / 10))) =
     Inr [[0, 2476979795053773 / 2251799813685248, 2476979795053773 / 1125899906842624],
          [4278419646001971 / 2251799813685248, 3, 2308094809027379 / 562949953421312]]"
    by (simp add: exD_result)
  have l: "length [[0, 2476979795053773 / 2251799813685248, 2476979795053773 / 1125899906842624],
          [4278419646001971 / 2251799813685248, 3, 2308094809027379 / 562949953421312 :: real]] = 2"
    by simp
  show ?thesis using a b r l exD_tau exD_dT by blast
qed

end
